theory Spec2Isabelle
  imports Main
begin

section \<open>Python values and errors\<close>

text \<open>
  Python integers are modelled as \<open>int\<close>, sequence lengths and the entries of a shape
  (non-negative by the data model) as \<open>nat\<close>. The two exceptions the engine can raise
  are values of \<open>error\<close>.
\<close>

datatype error = IndexingError | IndexError

text \<open>Subscripting \<open>xs[i]\<close> of a Python or numpy sequence of length \<open>n\<close>: an index in
  \<open>[-n, 0)\<close> counts from the end, anything outside \<open>[-n, n)\<close> raises.\<close>

definition py_slot :: "nat \<Rightarrow> int \<Rightarrow> nat option" where
  "py_slot n i =
     (if 0 \<le> i \<and> i < int n then Some (nat i)
      else if - int n \<le> i \<and> i < 0 then Some (nat (int n + i))
      else None)"

definition py_get :: "'a list \<Rightarrow> int \<Rightarrow> error + 'a" where
  "py_get xs i = (case py_slot (length xs) i of None \<Rightarrow> Inl IndexError | Some k \<Rightarrow> Inr (xs ! k))"

definition py_set :: "'a list \<Rightarrow> int \<Rightarrow> 'a \<Rightarrow> error + 'a list" where
  "py_set xs i v = (case py_slot (length xs) i of None \<Rightarrow> Inl IndexError | Some k \<Rightarrow> Inr (xs[k := v]))"

text \<open>A slice bound \<open>k\<close> of \<open>xs[:k]\<close> or \<open>xs[k:]\<close> never raises: it is clamped.\<close>

definition py_bound :: "nat \<Rightarrow> int \<Rightarrow> nat" where
  "py_bound n k = (if k < 0 then nat (max 0 (int n + k)) else min n (nat k))"

definition py_upto :: "'a list \<Rightarrow> int \<Rightarrow> 'a list" where
  "py_upto xs k = take (py_bound (length xs) k) xs"

definition py_from :: "'a list \<Rightarrow> int \<Rightarrow> 'a list" where
  "py_from xs k = drop (py_bound (length xs) k) xs"

section \<open>operators.py\<close>

definition mul :: "'a::times \<Rightarrow> 'a \<Rightarrow> 'a" where
  "mul x y = x * y"

definition id_op :: "'a \<Rightarrow> 'a" where
  "id_op x = x"

definition add :: "'a::plus \<Rightarrow> 'a \<Rightarrow> 'a" where
  "add x y = x + y"

text \<open>The loop \<open>for i in itr[start+1:]: ret = fn(ret, i)\<close> of \<open>reduce\<close>.\<close>

fun reduce_loop :: "('a \<Rightarrow> 'a \<Rightarrow> 'a) \<Rightarrow> 'a \<Rightarrow> 'a list \<Rightarrow> 'a" where
  "reduce_loop fn ret [] = ret"
| "reduce_loop fn ret (i # rest) = reduce_loop fn (fn ret i) rest"

text \<open>\<open>operators.reduce(fn, start)\<close> applied to a list: \<open>start\<close> is used as a subscript.\<close>

definition operators_reduce :: "('a::zero \<Rightarrow> 'a \<Rightarrow> 'a) \<Rightarrow> int \<Rightarrow> 'a list \<Rightarrow> error + 'a" where
  "operators_reduce fn start itr =
     (if length itr = 0 then Inr 0
      else case py_get itr start of
             Inl e \<Rightarrow> Inl e
           | Inr ret \<Rightarrow> Inr (reduce_loop fn ret (py_from itr (start + 1))))"

definition operators_sum :: "'a::{zero,plus} list \<Rightarrow> error + 'a" where
  "operators_sum ls = operators_reduce add 0 ls"

definition operators_prod :: "'a::{zero,times} list \<Rightarrow> error + 'a" where
  "operators_prod ls = operators_reduce mul 0 ls"

section \<open>The coordinate enumeration\<close>

text \<open>\<open>range(i)\<close> and \<open>itertools.product\<close> of a list of iterables.\<close>

definition range_py :: "nat \<Rightarrow> nat list" where
  "range_py n = [0..<n]"

fun product_py :: "'a list list \<Rightarrow> 'a list list" where
  "product_py [] = [[]]"
| "product_py (xs # xss) = concat (map (\<lambda>x. map (\<lambda>t. x # t) (product_py xss)) xs)"

text \<open>\<open>product(*(range(i) for i in shape))\<close>, the driver of every kernel.\<close>

definition indices :: "nat list \<Rightarrow> nat list list" where
  "indices shape = product_py (map range_py shape)"

text \<open>The size of a shape: the product of its entries.\<close>

definition size_of :: "nat list \<Rightarrow> nat" where
  "size_of shape = prod_list shape"

text \<open>Row-major order on coordinates of one length: the first differing entry decides.\<close>

fun row_major_less :: "nat list \<Rightarrow> nat list \<Rightarrow> bool" where
  "row_major_less (x # xs) (y # ys) = (x < y \<or> (x = y \<and> row_major_less xs ys))"
| "row_major_less _ _ = False"

definition in_bounds :: "nat list \<Rightarrow> nat list \<Rightarrow> bool" where
  "in_bounds c shape = (length c = length shape \<and> list_all2 (\<lambda>x n. x < n) c shape)"

section \<open>tensor\_data.py: indexing, broadcasting and tensors\<close>

text \<open>Modelled from the spec: \<open>index_to_position\<close> of tensor\_data.py, which is not among
  the sources. Section 4.1: the position is the dot product of coordinate and strides,
  component-wise; the raw form never validates. Coordinates are the tuples the
  enumeration produces, strides are integers, so the position is an integer.\<close>

definition index_to_position :: "nat list \<Rightarrow> int list \<Rightarrow> int" where
  "index_to_position index strides = sum_list (map2 (\<lambda>i s. int i * s) index strides)"

text \<open>Modelled from the spec: \<open>broadcast_index\<close> of tensor\_data.py, which is not among
  the sources. Section 4.3: given a coordinate under \<open>big_shape\<close>, it writes into
  \<open>out_index\<close> (of the length of \<open>shape\<close>) the coordinate under \<open>shape\<close>; \<open>shape\<close> is
  right-aligned against \<open>big_shape\<close>, and for each dimension of \<open>shape\<close> the entry is 0 if
  the aligned size of \<open>big_shape\<close> is 1 or the own size is 1, and the entry of
  \<open>big_index\<close> at the aligned position otherwise. The spec gives no behaviour when the
  lengths do not fit; the model fails there. The new content of \<open>out_index\<close> is
  returned.\<close>

definition broadcast_index :: "nat list \<Rightarrow> nat list \<Rightarrow> nat list \<Rightarrow> nat list \<Rightarrow> error + nat list" where
  "broadcast_index big_index big_shape shape out_index =
     (if length shape \<le> length big_shape \<and> length big_index = length big_shape
         \<and> length out_index = length shape
      then Inr (map (\<lambda>i. let j = i + (length big_shape - length shape)
                          in if big_shape ! j = 1 \<or> shape ! i = 1 then 0 else big_index ! j)
                    [0..<length shape])
      else Inl IndexingError)"

text \<open>Modelled from the spec: \<open>shape_broadcast\<close> of tensor\_data.py, which is not among
  the sources. Section 4.3: the two shapes are right-aligned, the shorter one padded on
  the left with dimensions of size 1; for each aligned pair \<open>(a, b)\<close> the result is \<open>a\<close>
  if \<open>a = b\<close>, \<open>a\<close> if \<open>b = 1\<close>, \<open>b\<close> if \<open>a = 1\<close>, and IndexingError otherwise.\<close>

definition broadcast_dim :: "nat \<Rightarrow> nat \<Rightarrow> error + nat" where
  "broadcast_dim a b =
     (if a = b then Inr a else if b = 1 then Inr a else if a = 1 then Inr b
      else Inl IndexingError)"

definition pad_left :: "nat \<Rightarrow> nat list \<Rightarrow> nat list" where
  "pad_left m s = replicate (m - length s) 1 @ s"

fun collect :: "(error + 'a) list \<Rightarrow> error + 'a list" where
  "collect [] = Inr []"
| "collect (r # rs) =
     (case r of
        Inl e \<Rightarrow> Inl e
      | Inr x \<Rightarrow> (case collect rs of Inl e \<Rightarrow> Inl e | Inr xs \<Rightarrow> Inr (x # xs)))"

definition shape_broadcast :: "nat list \<Rightarrow> nat list \<Rightarrow> error + nat list" where
  "shape_broadcast shape1 shape2 =
     (let m = max (length shape1) (length shape2)
      in collect (map2 broadcast_dim (pad_left m shape1) (pad_left m shape2)))"

text \<open>\<open>in_shape\<close> broadcasts into \<open>out_shape\<close>: broadcasting the two gives \<open>out_shape\<close>.\<close>

definition broadcasts_into :: "nat list \<Rightarrow> nat list \<Rightarrow> bool" where
  "broadcasts_into in_shape out_shape = (shape_broadcast in_shape out_shape = Inr out_shape)"

text \<open>Two shapes are mutually broadcast-compatible when every aligned pair of sizes is
  equal or has a 1 (section 4.3).\<close>

definition broadcast_compatible :: "nat list \<Rightarrow> nat list \<Rightarrow> bool" where
  "broadcast_compatible shape1 shape2 =
     (let m = max (length shape1) (length shape2)
      in list_all2 (\<lambda>a b. a = b \<or> b = 1 \<or> a = 1) (pad_left m shape1) (pad_left m shape2))"

text \<open>Modelled from the spec: the canonical row-major strides of a shape (section 3):
  the last stride is 1, each preceding one the product of all following sizes.\<close>

fun strides_from_shape :: "nat list \<Rightarrow> int list" where
  "strides_from_shape [] = []"
| "strides_from_shape (n # s) = int (prod_list s) # strides_from_shape s"

text \<open>
  Storage buffers are mutable and may be shared between tensors, so they live in a heap:
  a list of buffers, a buffer being named by its position. A kernel takes the heap and
  returns it updated, together with the exception it raised, if any: what was written
  before a raise stays written.
\<close>

type_synonym 'a heap = "'a list list"

text \<open>Modelled from the spec: the tensor collaborator of section 3, a reference to a
  storage buffer with a shape and strides; \<open>tuple()\<close> reads the three fields.\<close>

record tensor =
  storage :: nat
  shape :: "nat list"
  strides :: "int list"

text \<open>Modelled from the spec: \<open>zeros\<close> allocates a fresh zero-filled tensor of the given
  shape (section 6), contiguous, its buffer of the size of the shape.\<close>

definition zeros :: "'a::zero heap \<Rightarrow> nat list \<Rightarrow> tensor \<times> 'a heap" where
  "zeros h shp =
     (\<lparr>storage = length h, shape = shp, strides = strides_from_shape shp\<rparr>,
      h @ [replicate (size_of shp) 0])"

section \<open>tensor\_ops.py: the kernels\<close>

text \<open>The loop of \<open>_map\<close> over the coordinates still to visit; \<open>in_bidx\<close> is the scratch
  coordinate, a copy of \<open>in_shape\<close> at first.\<close>

fun map_loop :: "('a \<Rightarrow> 'a) \<Rightarrow> nat \<Rightarrow> nat list \<Rightarrow> int list \<Rightarrow> nat \<Rightarrow> nat list \<Rightarrow> int list
    \<Rightarrow> nat list \<Rightarrow> nat list list \<Rightarrow> 'a heap \<Rightarrow> error option \<times> 'a heap" where
  "map_loop fn out out_shape out_strides in_storage in_shape in_strides in_bidx [] h = (None, h)"
| "map_loop fn out out_shape out_strides in_storage in_shape in_strides in_bidx (idx # rest) h =
     (case broadcast_index idx out_shape in_shape in_bidx of
        Inl e \<Rightarrow> (Some e, h)
      | Inr in_bidx' \<Rightarrow>
          (case py_get (h ! in_storage) (index_to_position in_bidx' in_strides) of
             Inl e \<Rightarrow> (Some e, h)
           | Inr in_val \<Rightarrow>
               (case py_set (h ! out) (index_to_position idx out_strides) (fn in_val) of
                  Inl e \<Rightarrow> (Some e, h)
                | Inr arr \<Rightarrow>
                    map_loop fn out out_shape out_strides in_storage in_shape in_strides
                      in_bidx' rest (h[out := arr]))))"

definition tensor_map :: "('a \<Rightarrow> 'a) \<Rightarrow> nat \<Rightarrow> nat list \<Rightarrow> int list \<Rightarrow> nat \<Rightarrow> nat list \<Rightarrow> int list
    \<Rightarrow> 'a heap \<Rightarrow> error option \<times> 'a heap" where
  "tensor_map fn out out_shape out_strides in_storage in_shape in_strides h =
     map_loop fn out out_shape out_strides in_storage in_shape in_strides in_shape
       (indices out_shape) h"

text \<open>\<open>map(fn)\<close> applied to \<open>a\<close> and an optional \<open>out\<close>.\<close>

definition tensor_ops_map :: "('a::zero \<Rightarrow> 'a) \<Rightarrow> tensor \<Rightarrow> tensor option \<Rightarrow> 'a heap
    \<Rightarrow> (error + tensor) \<times> 'a heap" where
  "tensor_ops_map fn a out_opt h =
     (let (out, h1) = (case out_opt of None \<Rightarrow> zeros h (shape a) | Some t \<Rightarrow> (t, h))
      in case tensor_map fn (storage out) (shape out) (strides out)
                (storage a) (shape a) (strides a) h1 of
           (Some e, h2) \<Rightarrow> (Inl e, h2)
         | (None, h2) \<Rightarrow> (Inr out, h2))"

fun zip_loop :: "('a \<Rightarrow> 'a \<Rightarrow> 'a) \<Rightarrow> nat \<Rightarrow> nat list \<Rightarrow> int list \<Rightarrow> nat \<Rightarrow> nat list \<Rightarrow> int list
    \<Rightarrow> nat \<Rightarrow> nat list \<Rightarrow> int list \<Rightarrow> nat list \<Rightarrow> nat list \<Rightarrow> nat list list \<Rightarrow> 'a heap
    \<Rightarrow> error option \<times> 'a heap" where
  "zip_loop fn out out_shape out_strides a_storage a_shape a_strides
      b_storage b_shape b_strides a_bidx b_bidx [] h = (None, h)"
| "zip_loop fn out out_shape out_strides a_storage a_shape a_strides
      b_storage b_shape b_strides a_bidx b_bidx (idx # rest) h =
     (case broadcast_index idx out_shape a_shape a_bidx of
        Inl e \<Rightarrow> (Some e, h)
      | Inr a_bidx' \<Rightarrow>
     (case broadcast_index idx out_shape b_shape b_bidx of
        Inl e \<Rightarrow> (Some e, h)
      | Inr b_bidx' \<Rightarrow>
     (case py_get (h ! a_storage) (index_to_position a_bidx' a_strides) of
        Inl e \<Rightarrow> (Some e, h)
      | Inr a_val \<Rightarrow>
     (case py_get (h ! b_storage) (index_to_position b_bidx' b_strides) of
        Inl e \<Rightarrow> (Some e, h)
      | Inr b_val \<Rightarrow>
     (case py_set (h ! out) (index_to_position idx out_strides) (fn a_val b_val) of
        Inl e \<Rightarrow> (Some e, h)
      | Inr arr \<Rightarrow>
          zip_loop fn out out_shape out_strides a_storage a_shape a_strides
            b_storage b_shape b_strides a_bidx' b_bidx' rest (h[out := arr]))))))"

definition tensor_zip :: "('a \<Rightarrow> 'a \<Rightarrow> 'a) \<Rightarrow> nat \<Rightarrow> nat list \<Rightarrow> int list \<Rightarrow> nat \<Rightarrow> nat list
    \<Rightarrow> int list \<Rightarrow> nat \<Rightarrow> nat list \<Rightarrow> int list \<Rightarrow> 'a heap \<Rightarrow> error option \<times> 'a heap" where
  "tensor_zip fn out out_shape out_strides a_storage a_shape a_strides
      b_storage b_shape b_strides h =
     zip_loop fn out out_shape out_strides a_storage a_shape a_strides
       b_storage b_shape b_strides a_shape b_shape (indices out_shape) h"

text \<open>\<open>zip(fn)\<close> applied to \<open>a\<close> and \<open>b\<close>: the output shape, the allocation, the kernel.\<close>

definition tensor_ops_zip :: "('a::zero \<Rightarrow> 'a \<Rightarrow> 'a) \<Rightarrow> tensor \<Rightarrow> tensor \<Rightarrow> 'a heap
    \<Rightarrow> (error + tensor) \<times> 'a heap" where
  "tensor_ops_zip fn a b h =
     (case (if shape a \<noteq> shape b then shape_broadcast (shape a) (shape b)
            else Inr (shape a)) of
        Inl e \<Rightarrow> (Inl e, h)
      | Inr c_shape \<Rightarrow>
          (let (out, h1) = zeros h c_shape
           in case tensor_zip fn (storage out) (shape out) (strides out)
                     (storage a) (shape a) (strides a)
                     (storage b) (shape b) (strides b) h1 of
                (Some e, h2) \<Rightarrow> (Inl e, h2)
              | (None, h2) \<Rightarrow> (Inr out, h2)))"

text \<open>The general path alone, as the spec words it: the output shape is always the
  broadcast of the two operand shapes. It is compared with \<open>tensor_ops_zip\<close>.\<close>

definition zip_general :: "('a::zero \<Rightarrow> 'a \<Rightarrow> 'a) \<Rightarrow> tensor \<Rightarrow> tensor \<Rightarrow> 'a heap
    \<Rightarrow> (error + tensor) \<times> 'a heap" where
  "zip_general fn a b h =
     (case shape_broadcast (shape a) (shape b) of
        Inl e \<Rightarrow> (Inl e, h)
      | Inr c_shape \<Rightarrow>
          (let (out, h1) = zeros h c_shape
           in case tensor_zip fn (storage out) (shape out) (strides out)
                     (storage a) (shape a) (strides a)
                     (storage b) (shape b) (strides b) h1 of
                (Some e, h2) \<Rightarrow> (Inl e, h2)
              | (None, h2) \<Rightarrow> (Inr out, h2)))"

text \<open>\<open>np.delete(xs, k)\<close>: the sequence without the entry at subscript \<open>k\<close>.\<close>

definition np_delete :: "'a list \<Rightarrow> int \<Rightarrow> error + 'a list" where
  "np_delete xs k =
     (case py_slot (length xs) k of
        None \<Rightarrow> Inl IndexError
      | Some j \<Rightarrow> Inr (take j xs @ drop (Suc j) xs))"

text \<open>The inner loop of \<open>_reduce\<close> over the values of \<open>reduce_idx\<close> still to visit;
  \<open>last\<close> is \<open>None\<close> until the first value has been read.\<close>

fun reduce_inner :: "('a \<Rightarrow> 'a \<Rightarrow> 'a) \<Rightarrow> 'a list \<Rightarrow> int list \<Rightarrow> int \<Rightarrow> nat list \<Rightarrow> nat list
    \<Rightarrow> 'a option \<Rightarrow> error + 'a option" where
  "reduce_inner fn in_buf in_strides reduce_dim idx [] last_val = Inr last_val"
| "reduce_inner fn in_buf in_strides reduce_dim idx (reduce_idx # rest) last_val =
     (let full_idx = py_upto idx reduce_dim @ [reduce_idx] @ py_from idx reduce_dim
      in case py_get in_buf (index_to_position full_idx in_strides) of
           Inl e \<Rightarrow> Inl e
         | Inr val \<Rightarrow>
             reduce_inner fn in_buf in_strides reduce_dim idx rest
               (case last_val of None \<Rightarrow> Some val | Some l \<Rightarrow> Some (fn l val)))"

text \<open>The outer loop of \<open>_reduce\<close>. When the inner loop has not run, \<open>last\<close> is still
  \<open>None\<close> and \<open>None\<close> is assigned to the output cell; \<open>none_cell\<close> is what the buffer
  then holds (NaN for a numpy float buffer). The buffer's type is fixed in
  tensor\_data.py, which is not among the sources, so \<open>none_cell\<close> is a parameter.\<close>

fun reduce_outer :: "('a \<Rightarrow> 'a \<Rightarrow> 'a) \<Rightarrow> 'a \<Rightarrow> nat \<Rightarrow> int list \<Rightarrow> nat \<Rightarrow> nat list \<Rightarrow> int list
    \<Rightarrow> int \<Rightarrow> nat list list \<Rightarrow> 'a heap \<Rightarrow> error option \<times> 'a heap" where
  "reduce_outer fn none_cell out out_strides in_storage in_shape in_strides reduce_dim [] h
     = (None, h)"
| "reduce_outer fn none_cell out out_strides in_storage in_shape in_strides reduce_dim
      (idx # rest) h =
     (case py_get in_shape reduce_dim of
        Inl e \<Rightarrow> (Some e, h)
      | Inr n \<Rightarrow>
     (case reduce_inner fn (h ! in_storage) in_strides reduce_dim idx (range_py n) None of
        Inl e \<Rightarrow> (Some e, h)
      | Inr last_val \<Rightarrow>
          (let out_idx = py_upto idx reduce_dim @ [0] @ py_from idx reduce_dim
           in case py_set (h ! out) (index_to_position out_idx out_strides)
                     (case last_val of None \<Rightarrow> none_cell | Some v \<Rightarrow> v) of
                Inl e \<Rightarrow> (Some e, h)
              | Inr arr \<Rightarrow>
                  reduce_outer fn none_cell out out_strides in_storage in_shape in_strides
                    reduce_dim rest (h[out := arr]))))"

definition tensor_reduce :: "('a \<Rightarrow> 'a \<Rightarrow> 'a) \<Rightarrow> 'a \<Rightarrow> nat \<Rightarrow> nat list \<Rightarrow> int list \<Rightarrow> nat
    \<Rightarrow> nat list \<Rightarrow> int list \<Rightarrow> int \<Rightarrow> 'a heap \<Rightarrow> error option \<times> 'a heap" where
  "tensor_reduce fn none_cell out out_shape out_strides in_storage in_shape in_strides
      reduce_dim h =
     (case np_delete in_shape reduce_dim of
        Inl e \<Rightarrow> (Some e, h)
      | Inr others \<Rightarrow>
          reduce_outer fn none_cell out out_strides in_storage in_shape in_strides
            reduce_dim (indices others) h)"

text \<open>\<open>reduce(fn, start)\<close> applied to \<open>a\<close> and \<open>dim\<close>.\<close>

definition tensor_ops_reduce :: "('a::zero \<Rightarrow> 'a \<Rightarrow> 'a) \<Rightarrow> 'a \<Rightarrow> 'a \<Rightarrow> tensor \<Rightarrow> int \<Rightarrow> 'a heap
    \<Rightarrow> (error + tensor) \<times> 'a heap" where
  "tensor_ops_reduce fn none_cell start a dim h =
     (case py_set (shape a) dim 1 of
        Inl e \<Rightarrow> (Inl e, h)
      | Inr out_shape \<Rightarrow>
          (let (out, h1) = zeros h out_shape;
               h2 = h1[storage out := replicate (length (h1 ! storage out)) start]
           in case tensor_reduce fn none_cell (storage out) (shape out) (strides out)
                     (storage a) (shape a) (strides a) dim h2 of
                (Some e, h3) \<Rightarrow> (Inl e, h3)
              | (None, h3) \<Rightarrow> (Inr out, h3)))"

section \<open>Notions used to state what the kernels do\<close>

text \<open>A sequence of writes \<open>(k, v)\<close>, cell \<open>k\<close> receiving \<open>v\<close>, applied to a buffer in order.\<close>

fun scatter :: "(nat \<times> 'a) list \<Rightarrow> 'a list \<Rightarrow> 'a list" where
  "scatter [] buf = buf"
| "scatter ((k, v) # ws) buf = scatter ws (buf[k := v])"

text \<open>The cell of a buffer of length \<open>n\<close> that the subscript \<open>p\<close> names (\<open>n\<close>, which is no
  cell, when the subscript is out of range).\<close>

definition cell :: "nat \<Rightarrow> int \<Rightarrow> nat" where
  "cell n p = (case py_slot n p of Some k \<Rightarrow> k | None \<Rightarrow> n)"

text \<open>The coordinate that \<open>broadcast_index\<close> leaves in its scratch buffer.\<close>

definition bcast :: "nat list \<Rightarrow> nat list \<Rightarrow> nat list \<Rightarrow> nat list" where
  "bcast c big small = (case broadcast_index c big small small of Inr bc \<Rightarrow> bc | Inl e \<Rightarrow> [])"

text \<open>The positions of all coordinates of a shape under given strides.\<close>

definition positions :: "nat list \<Rightarrow> int list \<Rightarrow> int list" where
  "positions shp strd = map (\<lambda>c. index_to_position c strd) (indices shp)"

text \<open>A buffer fits a shape and strides when the position of every coordinate of the shape
  is a valid subscript of the buffer.\<close>

definition view_ok :: "'a list \<Rightarrow> nat list \<Rightarrow> int list \<Rightarrow> bool" where
  "view_ok buf shp strd = list_all (\<lambda>p. py_slot (length buf) p \<noteq> None) (positions shp strd)"

text \<open>Between the heaps \<open>h\<close> and \<open>h'\<close> nothing has changed but cells of the buffer \<open>out\<close>
  that one of the subscripts \<open>ps\<close> names.\<close>

definition writes_only :: "nat \<Rightarrow> int list \<Rightarrow> 'a heap \<Rightarrow> 'a heap \<Rightarrow> bool" where
  "writes_only out ps h h' =
     (length h' = length h
      \<and> (\<forall>j < length h. j \<noteq> out \<longrightarrow> h' ! j = h ! j)
      \<and> length (h' ! out) = length (h ! out)
      \<and> (\<forall>k < length (h ! out).
            Some k \<notin> set (map (py_slot (length (h ! out))) ps) \<longrightarrow> h' ! out ! k = h ! out ! k))"

text \<open>One step of \<open>_map\<close> at the coordinate \<open>c\<close>, on the heap as it is at that moment:
  the cell of \<open>out\<close> at the position of \<open>c\<close> receives \<open>fn\<close> of the cell of \<open>in_storage\<close>
  at the position of the broadcast coordinate.\<close>

definition map_step :: "('a \<Rightarrow> 'a) \<Rightarrow> nat \<Rightarrow> nat list \<Rightarrow> int list \<Rightarrow> nat \<Rightarrow> nat list \<Rightarrow> int list
    \<Rightarrow> 'a heap \<Rightarrow> nat list \<Rightarrow> 'a heap" where
  "map_step fn out out_shape out_strides in_storage in_shape in_strides h c =
     h[out := (h ! out)[cell (length (h ! out)) (index_to_position c out_strides) :=
          fn (h ! in_storage ! cell (length (h ! in_storage))
                (index_to_position (bcast c out_shape in_shape) in_strides))]]"


text \<open>The accumulator of the inner loop of \<open>_reduce\<close> after the values \<open>vs\<close>, from the
  accumulator \<open>acc\<close>: \<open>None\<close> as long as no value has been seen.\<close>

fun fold_from :: "('a \<Rightarrow> 'a \<Rightarrow> 'a) \<Rightarrow> 'a option \<Rightarrow> 'a list \<Rightarrow> 'a option" where
  "fold_from fn acc [] = acc"
| "fold_from fn acc (v # vs) =
     fold_from fn (case acc of None \<Rightarrow> Some v | Some l \<Rightarrow> Some (fn l v)) vs"


section \<open>Properties of operators.reduce\<close>

lemma reduce_loop_foldl: "reduce_loop fn ret xs = foldl fn ret xs"
  by (induction xs arbitrary: ret) simp_all

text \<open>
  Claim C9. The callable returned by \<open>operators.reduce(fn, start)\<close> does not seed the
  fold with \<open>start\<close>: on the empty list it returns 0 whatever \<open>fn\<close> and \<open>start\<close> are; on a
  non-empty list the accumulator starts as the element at subscript \<open>start\<close> and is
  combined with the elements after it, so with \<open>start = 0\<close> the result is the left fold
  of the tail from the head. Hence \<open>sum([])\<close> and \<open>prod([])\<close> are both 0.
\<close>

theorem operators_reduce_start_is_subscript:
  fixes fn :: "'a::{zero,plus,times} \<Rightarrow> 'a \<Rightarrow> 'a" and ls :: "'a list"
  shows "operators_reduce fn start [] = Inr 0
       \<and> (ls \<noteq> [] \<longrightarrow> operators_reduce fn 0 ls = Inr (foldl fn (hd ls) (tl ls)))
       \<and> (ls \<noteq> [] \<and> 0 \<le> start \<and> start < int (length ls) \<longrightarrow>
            operators_reduce fn start ls
              = Inr (foldl fn (ls ! nat start) (drop (nat start + 1) ls)))
       \<and> operators_sum ([] :: 'a list) = Inr 0
       \<and> operators_prod ([] :: 'a list) = Inr 0"
proof -
  have empty: "operators_reduce fn start [] = Inr 0"
    by (simp add: operators_reduce_def)
  have general: "operators_reduce fn start ls
      = Inr (foldl fn (ls ! nat start) (drop (nat start + 1) ls))"
    if "ls \<noteq> []" "0 \<le> start" "start < int (length ls)"
  proof -
    have "py_bound (length ls) (start + 1) = nat start + 1"
      using that by (simp add: py_bound_def min_def) linarith
    then show ?thesis
      using that
      by (simp add: operators_reduce_def py_get_def py_slot_def py_from_def reduce_loop_foldl)
  qed
  have zero: "operators_reduce fn 0 ls = Inr (foldl fn (hd ls) (tl ls))" if "ls \<noteq> []"
  proof -
    have "py_bound (length ls) 1 = 1"
      using that by (cases ls) (simp_all add: py_bound_def)
    then show ?thesis
      using that
      by (cases ls)
         (simp_all add: operators_reduce_def py_get_def py_slot_def py_from_def reduce_loop_foldl)
  qed
  have s: "operators_sum ([] :: 'a list) = Inr 0"
    by (simp add: operators_sum_def operators_reduce_def)
  have p: "operators_prod ([] :: 'a list) = Inr 0"
    by (simp add: operators_prod_def operators_reduce_def)
  from empty general zero s p show ?thesis by blast
qed

theorem operators_reduce_start_is_subscript_witness:
  "operators_reduce (\<lambda>x y. x - y) 0 [10, 3, 2 :: int] = Inr 5
   \<and> operators_reduce (\<lambda>x y. x - y) 1 [10, 3, 2 :: int] = Inr 1
   \<and> operators_reduce (\<lambda>x y. x - y) 7 ([] :: int list) = Inr 0
   \<and> operators_prod ([] :: int list) = Inr 0"
  using operators_reduce_start_is_subscript [of "\<lambda>x y. x - y" 1 "[10, 3, 2 :: int]"]
        operators_reduce_start_is_subscript [of "\<lambda>x y. x - y" 7 "[10, 3, 2 :: int]"]
  by simp

section \<open>Properties of the coordinate enumeration\<close>

lemma product_py_lists: "product_py xss = product_lists xss"
  by (induction xss) simp_all

lemma length_product_py: "length (product_py xss) = prod_list (map length xss)"
  by (induction xss) (simp_all add: length_concat comp_def sum_list_triv)

lemma indices_length: "length (indices s) = size_of s"
  by (simp add: indices_def size_of_def length_product_py comp_def range_py_def)

lemma indices_set: "set (indices s) = {c. in_bounds c s}"
  apply (simp add: indices_def product_py_lists product_lists_set in_bounds_def range_py_def list_all2_map2)
  apply (auto simp: list_all2_lengthD)
  done

lemma indices_distinct: "distinct (indices s)"
  by (simp add: indices_def product_py_lists range_py_def distinct_product_lists)

lemma sorted_blocks:
  "sorted_wrt row_major_less P \<Longrightarrow>
   sorted_wrt row_major_less (concat (map (\<lambda>x. map (\<lambda>t. x # t) P) [0..<n]))"
proof (induction n)
  case 0
  then show ?case by simp
next
  case (Suc n)
  then show ?case
    by (auto simp: sorted_wrt_append sorted_wrt_map)
qed

lemma indices_sorted: "sorted_wrt row_major_less (indices s)"
  unfolding indices_def
  by (induction s) (simp_all add: sorted_blocks range_py_def)

lemma in_bounds_nth: "in_bounds c s \<longleftrightarrow> length c = length s \<and> (\<forall>d < length s. c ! d < s ! d)"
  by (auto simp: in_bounds_def list_all2_conv_all_nth)

text \<open>
  Claim C8. For every shape \<open>s\<close> the enumeration \<open>product(*(range(i) for i in s))\<close>
  yields exactly \<open>size(s)\<close> coordinates (the product of the entries: 1 for the empty
  shape, 0 as soon as an entry is 0), pairwise distinct, each of the length of \<open>s\<close> and
  within bounds in every dimension (and every such coordinate is produced), in
  row-major order: each coordinate is followed only by coordinates that are larger at
  the first dimension where they differ, so the last dimension varies fastest.
\<close>

theorem indices_enumerates_shape:
  "length (indices s) = size_of s
   \<and> size_of [] = 1
   \<and> (0 \<in> set s \<longrightarrow> size_of s = 0)
   \<and> distinct (indices s)
   \<and> (\<forall>c \<in> set (indices s). length c = length s \<and> (\<forall>d < length s. c ! d < s ! d))
   \<and> set (indices s) = {c. in_bounds c s}
   \<and> sorted_wrt row_major_less (indices s)"
proof -
  have "\<forall>c \<in> set (indices s). length c = length s \<and> (\<forall>d < length s. c ! d < s ! d)"
    using indices_set [of s] in_bounds_nth by blast
  moreover have "0 \<in> set s \<longrightarrow> size_of s = 0"
    by (simp add: size_of_def prod_list_zero_iff)
  moreover have "size_of [] = 1"
    by (simp add: size_of_def)
  ultimately show ?thesis
    using indices_length indices_distinct indices_set indices_sorted by blast
qed

theorem indices_enumerates_shape_witness:
  "indices [2, 3] = [[0, 0], [0, 1], [0, 2], [1, 0], [1, 1], [1, 2]]
   \<and> length (indices [2, 3]) = 6
   \<and> size_of [2, 0, 3] = 0
   \<and> distinct (indices [2, 3])
   \<and> sorted_wrt row_major_less (indices [2, 3])"
  using indices_enumerates_shape [of "[2, 3]"] indices_enumerates_shape [of "[2, 0, 3]"]
  by (simp add: indices_def range_py_def size_of_def upt_rec)

section \<open>Properties of broadcasting\<close>

lemma collect_map_Inr: "collect (map Inr zs) = Inr zs"
  by (induction zs) simp_all

lemma collect_Inr_D: "collect rs = Inr zs \<Longrightarrow> rs = map Inr zs"
  by (induction rs arbitrary: zs) (auto split: sum.splits)

lemma collect_Inr: "collect rs = Inr zs \<longleftrightarrow> rs = map Inr zs"
  using collect_map_Inr collect_Inr_D by metis

lemma collect_Inl: "collect rs = Inl e \<Longrightarrow> Inl e \<in> set rs"
  by (induction rs) (auto split: sum.splits)

lemma broadcast_dim_same: "broadcast_dim a a = Inr a"
  by (simp add: broadcast_dim_def)

lemma broadcast_dim_error: "broadcast_dim a b = Inl e \<Longrightarrow> e = IndexingError"
  by (auto simp: broadcast_dim_def split: if_splits)

lemma broadcast_dim_Inr:
  "broadcast_dim a b = Inr b \<longleftrightarrow> a = b \<or> a = 1"
  by (auto simp: broadcast_dim_def)

lemma broadcast_dim_result:
  "broadcast_dim a b = Inr c \<Longrightarrow> broadcast_dim a c = Inr c \<and> broadcast_dim b c = Inr c"
  by (auto simp: broadcast_dim_def split: if_splits)

lemma length_pad_left: "length (pad_left m s) = max m (length s)"
  by (simp add: pad_left_def)

lemma pad_left_id: "length s \<ge> m \<Longrightarrow> pad_left m s = s"
  by (simp add: pad_left_def)

lemma shape_broadcast_same: "shape_broadcast s s = Inr s"
proof -
  have "map2 broadcast_dim s s = map Inr s"
    by (induction s) (simp_all add: broadcast_dim_same)
  then show ?thesis
    by (simp add: shape_broadcast_def pad_left_id collect_Inr)
qed

lemma shape_broadcast_error:
  assumes "shape_broadcast a b = Inl e"
  shows "e = IndexingError"
proof -
  from assms obtain xs ys where "Inl e \<in> set (map2 broadcast_dim xs ys)"
    unfolding shape_broadcast_def Let_def using collect_Inl by blast
  then obtain x y where "broadcast_dim x y = Inl e" by auto
  then show ?thesis by (rule broadcast_dim_error)
qed

lemma map2_eq_map_iff:
  "length xs = length ys \<Longrightarrow>
   map2 f xs ys = map g zs \<longleftrightarrow>
     length zs = length xs \<and> (\<forall>i < length xs. f (xs ! i) (ys ! i) = g (zs ! i))"
  by (auto simp: list_eq_iff_nth_eq)

lemma shape_broadcast_Inr:
  "shape_broadcast a b = Inr c \<longleftrightarrow>
     length c = max (length a) (length b) \<and>
     (\<forall>i < length c. broadcast_dim (pad_left (length c) a ! i) (pad_left (length c) b ! i) = Inr (c ! i))"
  by (auto simp: shape_broadcast_def Let_def collect_Inr map2_eq_map_iff length_pad_left)

lemma broadcasts_into_iff:
  "broadcasts_into small big \<longleftrightarrow>
     length small \<le> length big \<and>
     (\<forall>i < length small. small ! i = big ! (i + (length big - length small)) \<or> small ! i = 1)"
proof -
  let ?off = "length big - length small"
  have pad: "pad_left (length big) small ! i = (if i < ?off then 1 else small ! (i - ?off))"
    if "length small \<le> length big" for i
    by (simp add: pad_left_def nth_append)
  show ?thesis
  proof
    assume "broadcasts_into small big"
    then have len: "length small \<le> length big"
      and all: "\<forall>i < length big. broadcast_dim (pad_left (length big) small ! i) (big ! i) = Inr (big ! i)"
      by (auto simp: broadcasts_into_def shape_broadcast_Inr pad_left_id)
    have "small ! i = big ! (i + ?off) \<or> small ! i = 1" if "i < length small" for i
    proof -
      have "i + ?off < length big" using that len by simp
      with all have "broadcast_dim (pad_left (length big) small ! (i + ?off)) (big ! (i + ?off)) = Inr (big ! (i + ?off))"
        by blast
      then show ?thesis using pad [OF len, of "i + ?off"] by (simp add: broadcast_dim_Inr)
    qed
    with len show "length small \<le> length big \<and>
     (\<forall>i < length small. small ! i = big ! (i + ?off) \<or> small ! i = 1)" by blast
  next
    assume r: "length small \<le> length big \<and>
     (\<forall>i < length small. small ! i = big ! (i + ?off) \<or> small ! i = 1)"
    then have len: "length small \<le> length big" by blast
    have "broadcast_dim (pad_left (length big) small ! i) (big ! i) = Inr (big ! i)" if "i < length big" for i
    proof (cases "i < ?off")
      case True
      then show ?thesis using pad [OF len, of i] by (simp add: broadcast_dim_Inr)
    next
      case False
      then have "i - ?off < length small" "i - ?off + ?off = i" using that len by auto
      with r have "small ! (i - ?off) = big ! i \<or> small ! (i - ?off) = 1" by metis
      then show ?thesis using pad [OF len, of i] False by (simp add: broadcast_dim_Inr)
    qed
    then show "broadcasts_into small big"
      using len by (simp add: broadcasts_into_def shape_broadcast_Inr pad_left_id max_def)
  qed
qed

lemma shape_broadcast_into:
  assumes "shape_broadcast a b = Inr c"
  shows "broadcasts_into a c" and "broadcasts_into b c"
proof -
  from assms have len: "length c = max (length a) (length b)"
    and all: "\<forall>i < length c. broadcast_dim (pad_left (length c) a ! i) (pad_left (length c) b ! i) = Inr (c ! i)"
    unfolding shape_broadcast_Inr by blast+
  from len have la: "max (length a) (length c) = length c" and lb: "max (length b) (length c) = length c"
    by simp_all
  have pc: "pad_left (length c) c = c" by (simp add: pad_left_id)
  have "\<forall>i < length c. broadcast_dim (pad_left (length c) a ! i) (c ! i) = Inr (c ! i)"
    using all broadcast_dim_result by blast
  then show "broadcasts_into a c"
    unfolding broadcasts_into_def shape_broadcast_Inr pc using la by simp
  have "\<forall>i < length c. broadcast_dim (pad_left (length c) b ! i) (c ! i) = Inr (c ! i)"
    using all broadcast_dim_result by blast
  then show "broadcasts_into b c"
    unfolding broadcasts_into_def shape_broadcast_Inr pc using lb by simp
qed

lemma broadcast_index_ok:
  assumes "broadcasts_into small big" "in_bounds c big" "length buf = length small"
  shows "\<exists>bc. broadcast_index c big small buf = Inr bc \<and> in_bounds bc small"
proof -
  let ?off = "length big - length small"
  let ?bc = "map (\<lambda>i. let j = i + ?off in if big ! j = 1 \<or> small ! i = 1 then 0 else c ! j) [0..<length small]"
  from assms(1) have len: "length small \<le> length big"
    and all: "\<forall>i < length small. small ! i = big ! (i + ?off) \<or> small ! i = 1"
    unfolding broadcasts_into_iff by blast+
  from assms(2) have cl: "length c = length big" and cb: "\<forall>d < length big. c ! d < big ! d"
    by (simp_all add: in_bounds_nth)
  have "broadcast_index c big small buf = Inr ?bc"
    using len cl assms(3) by (simp add: broadcast_index_def)
  moreover have "in_bounds ?bc small"
  proof -
    have "?bc ! i < small ! i" if "i < length small" for i
    proof -
      have "i + ?off < length big" using that len by simp
      with cb have "c ! (i + ?off) < big ! (i + ?off)" by blast
      with all that show ?thesis by (auto simp: Let_def)
    qed
    then show ?thesis by (simp add: in_bounds_nth)
  qed
  ultimately show ?thesis by blast
qed

lemma broadcast_index_buf:
  "length buf = length small \<Longrightarrow> broadcast_index c big small buf = broadcast_index c big small small"
  by (simp add: broadcast_index_def)

lemma broadcast_index_length:
  "broadcast_index c big small buf = Inr bc \<Longrightarrow> length bc = length small"
  by (auto simp: broadcast_index_def split: if_splits)

lemma broadcast_index_same:
  assumes "in_bounds c s"
  shows "broadcast_index c s s s = Inr c"
proof -
  from assms have cl: "length c = length s" and cb: "\<forall>d < length s. c ! d < s ! d"
    unfolding in_bounds_nth by blast+
  let ?bc = "map (\<lambda>i. let j = i + (length s - length s) in if s ! j = 1 \<or> s ! i = 1 then 0 else c ! j) [0..<length s]"
  have "?bc = c"
  proof (rule nth_equalityI)
    show "length ?bc = length c" by (simp add: cl)
  next
    fix i assume "i < length ?bc"
    then have i: "i < length s" by simp
    with cb have "c ! i < s ! i" by blast
    with i show "?bc ! i = c ! i" by (auto simp: Let_def)
  qed
  moreover have "broadcast_index c s s s = Inr ?bc"
    unfolding broadcast_index_def using cl by simp
  ultimately show ?thesis by simp
qed

lemma shape_broadcast_incompatible:
  assumes "\<not> broadcast_compatible a b"
  shows "shape_broadcast a b = Inl IndexingError"
proof (cases "shape_broadcast a b")
  case (Inl e)
  then show ?thesis using shape_broadcast_error by blast
next
  case (Inr c)
  then have len: "length c = max (length a) (length b)"
    and all: "\<forall>i < length c. broadcast_dim (pad_left (length c) a ! i) (pad_left (length c) b ! i) = Inr (c ! i)"
    unfolding shape_broadcast_Inr by blast+
  have "\<forall>i < length c. pad_left (length c) a ! i = pad_left (length c) b ! i
          \<or> pad_left (length c) b ! i = 1 \<or> pad_left (length c) a ! i = 1"
  proof (intro allI impI)
    fix i assume "i < length c"
    with all have "broadcast_dim (pad_left (length c) a ! i) (pad_left (length c) b ! i) = Inr (c ! i)"
      by blast
    then show "pad_left (length c) a ! i = pad_left (length c) b ! i
          \<or> pad_left (length c) b ! i = 1 \<or> pad_left (length c) a ! i = 1"
      by (auto simp: broadcast_dim_def split: if_splits)
  qed
  then have "broadcast_compatible a b"
    unfolding broadcast_compatible_def Let_def list_all2_conv_all_nth len [symmetric]
    using len by (simp add: length_pad_left)
  with assms show ?thesis by blast
qed

text \<open>
  Claim C5. When the shapes of \<open>a\<close> and \<open>b\<close> are not mutually broadcast-compatible,
  \<open>zip(fn)(a, b)\<close> raises IndexingError, the error of \<open>shape_broadcast\<close>, and the heap
  is the one it was called with: no output buffer has been allocated and no cell has
  been written.
\<close>

theorem zip_incompatible_raises_eagerly:
  assumes "\<not> broadcast_compatible (shape a) (shape b)"
  shows "shape_broadcast (shape a) (shape b) = Inl IndexingError
       \<and> tensor_ops_zip fn a b h = (Inl IndexingError, h)"
proof -
  have err: "shape_broadcast (shape a) (shape b) = Inl IndexingError"
    using assms by (rule shape_broadcast_incompatible)
  have "shape a \<noteq> shape b"
  proof
    assume "shape a = shape b"
    then have "shape_broadcast (shape a) (shape b) = Inr (shape a)"
      by (simp add: shape_broadcast_same)
    with err show False by simp
  qed
  with err show ?thesis by (simp add: tensor_ops_zip_def)
qed

theorem zip_incompatible_raises_eagerly_witness:
  "\<not> broadcast_compatible [5, 2] [5]
   \<and> tensor_ops_zip (\<lambda>x y. x + y)
       \<lparr>storage = 0, shape = [5, 2], strides = [2, 1]\<rparr>
       \<lparr>storage = 1, shape = [5], strides = [1]\<rparr>
       [[0, 1, 2, 3, 4, 5, 6, 7, 8, 9], [1, 2, 3, 4, 5 :: int]]
     = (Inl IndexingError, [[0, 1, 2, 3, 4, 5, 6, 7, 8, 9], [1, 2, 3, 4, 5]])"
proof -
  have n: "\<not> broadcast_compatible (shape \<lparr>storage = 0, shape = [5, 2], strides = [2, 1]\<rparr>)
             (shape \<lparr>storage = 1, shape = [5], strides = [1]\<rparr>)"
    by (simp add: broadcast_compatible_def pad_left_def)
  show ?thesis
    using n zip_incompatible_raises_eagerly [OF n, of "\<lambda>x y. x + y"
        "[[0, 1, 2, 3, 4, 5, 6, 7, 8, 9], [1, 2, 3, 4, 5 :: int]]"]
    by simp
qed

text \<open>
  Claim C6. For operands of equal shapes, the shortcut of \<open>zip\<close>, which takes the shape
  of \<open>a\<close> as the output shape, gives the result of the general path, which broadcasts
  the two shapes: the same outcome, the same tensor and the same heap, so the same shape
  and every stored value.
\<close>

theorem zip_equal_shape_shortcut:
  assumes "shape a = shape b"
  shows "tensor_ops_zip fn a b h = zip_general fn a b h"
  using assms by (simp add: tensor_ops_zip_def zip_general_def shape_broadcast_same)

theorem zip_equal_shape_shortcut_witness:
  "zip_general (\<lambda>x y. x + y)
       \<lparr>storage = 0, shape = [2, 2], strides = [2, 1]\<rparr>
       \<lparr>storage = 1, shape = [2, 2], strides = [1, 2]\<rparr>
       [[1, 2, 3, 4], [10, 20, 30, 40 :: int]]
     = (Inr \<lparr>storage = 2, shape = [2, 2], strides = [2, 1]\<rparr>,
        [[1, 2, 3, 4], [10, 20, 30, 40], [11, 32, 23, 44]])
   \<and> tensor_ops_zip (\<lambda>x y. x + y)
       \<lparr>storage = 0, shape = [2, 2], strides = [2, 1]\<rparr>
       \<lparr>storage = 1, shape = [2, 2], strides = [1, 2]\<rparr>
       [[1, 2, 3, 4], [10, 20, 30, 40 :: int]]
     = (Inr \<lparr>storage = 2, shape = [2, 2], strides = [2, 1]\<rparr>,
        [[1, 2, 3, 4], [10, 20, 30, 40], [11, 32, 23, 44]])"
proof -
  let ?a = "\<lparr>storage = 0, shape = [2, 2], strides = [2, 1]\<rparr>"
  let ?b = "\<lparr>storage = 1, shape = [2, 2], strides = [1, 2]\<rparr>"
  let ?h = "[[1, 2, 3, 4], [10, 20, 30, 40 :: int]]"
  have e: "shape ?a = shape ?b" by simp
  have g: "zip_general (\<lambda>x y. x + y) ?a ?b ?h
     = (Inr \<lparr>storage = 2, shape = [2, 2], strides = [2, 1]\<rparr>,
        [[1, 2, 3, 4], [10, 20, 30, 40], [11, 32, 23, 44]])"
    by code_simp
  show ?thesis
    using g zip_equal_shape_shortcut [OF e, of "\<lambda>x y. x + y" ?h] by simp
qed

section \<open>Contiguous strides\<close>

lemma blocks_upt: "concat (map (\<lambda>x. map (\<lambda>k. x * P + k) [0..<P]) [0..<n]) = [0..<n * P]"
proof (induction n)
  case 0
  then show ?case by simp
next
  case (Suc n)
  have "map (\<lambda>k. n * P + k) [0..<P] = [n * P..<n * P + P]"
    using map_add_upt [of "n * P" P] by (simp add: add.commute)
  moreover have "[0..<Suc n * P] = [0..<n * P] @ [n * P..<n * P + P]"
    using upt_add_eq_append [of 0 "n * P" P] by (simp add: add.commute)
  ultimately show ?case using Suc by simp
qed

lemma index_to_position_Cons:
  "index_to_position (x # t) (s # st) = int x * s + index_to_position t st"
  by (simp add: index_to_position_def)

lemma contiguous_positions:
  "positions s (strides_from_shape s) = map int [0..<size_of s]"
proof (induction s)
  case Nil
  then show ?case
    by (simp add: positions_def indices_def size_of_def index_to_position_def)
next
  case (Cons n s)
  let ?P = "size_of s"
  have ih: "map (\<lambda>t. index_to_position t (strides_from_shape s)) (indices s) = map int [0..<?P]"
    using Cons.IH by (simp add: positions_def)
  have blk: "map (\<lambda>t. index_to_position (x # t) (strides_from_shape (n # s))) (indices s)
      = map int (map (\<lambda>k. x * ?P + k) [0..<?P])" for x
  proof -
    have "map (\<lambda>t. index_to_position (x # t) (strides_from_shape (n # s))) (indices s)
        = map (\<lambda>q. int x * int ?P + q) (map (\<lambda>t. index_to_position t (strides_from_shape s)) (indices s))"
      by (simp add: index_to_position_Cons size_of_def comp_def)
    also have "\<dots> = map int (map (\<lambda>k. x * ?P + k) [0..<?P])"
      unfolding ih by (simp add: comp_def)
    finally show ?thesis .
  qed
  have "positions (n # s) (strides_from_shape (n # s))
      = concat (map (\<lambda>x. map (\<lambda>t. index_to_position (x # t) (strides_from_shape (n # s))) (indices s)) [0..<n])"
    by (simp add: positions_def indices_def range_py_def map_concat comp_def)
  also have "\<dots> = map int (concat (map (\<lambda>x. map (\<lambda>k. x * ?P + k) [0..<?P]) [0..<n]))"
    unfolding blk by (simp add: map_concat comp_def)
  also have "\<dots> = map int [0..<size_of (n # s)]"
    unfolding blocks_upt by (simp add: size_of_def)
  finally show ?case .
qed

lemma row_major_less_irrefl: "\<not> row_major_less c c"
  by (induction c) simp_all

lemma py_slot_nat: "k < n \<Longrightarrow> py_slot n (int k) = Some k"
  by (simp add: py_slot_def)

lemma contiguous_position_nat:
  assumes "c \<in> set (indices s)"
  shows "\<exists>k < size_of s. index_to_position c (strides_from_shape s) = int k"
proof -
  from assms have "index_to_position c (strides_from_shape s) \<in> set (positions s (strides_from_shape s))"
    by (simp add: positions_def)
  then show ?thesis unfolding contiguous_positions by auto
qed

lemma contiguous_inj:
  "inj_on (\<lambda>c. index_to_position c (strides_from_shape s)) (set (indices s))"
proof -
  have "distinct (map (\<lambda>c. index_to_position c (strides_from_shape s)) (indices s))"
    using contiguous_positions [of s] by (simp add: positions_def distinct_map inj_on_def)
  then show ?thesis by (simp add: distinct_map)
qed

lemma contiguous_view_ok:
  assumes "length buf = size_of s"
  shows "view_ok buf s (strides_from_shape s)"
  unfolding view_ok_def contiguous_positions assms
  by (simp add: list_all_iff py_slot_nat)

lemma contiguous_slots_distinct:
  assumes "c \<in> set (indices s)" "c' \<in> set (indices s)" "c \<noteq> c'"
  shows "py_slot (size_of s) (index_to_position c' (strides_from_shape s))
       \<noteq> py_slot (size_of s) (index_to_position c (strides_from_shape s))"
proof -
  from contiguous_position_nat [OF assms(1)] obtain k
    where k: "k < size_of s" "index_to_position c (strides_from_shape s) = int k" by blast
  from contiguous_position_nat [OF assms(2)] obtain k'
    where k': "k' < size_of s" "index_to_position c' (strides_from_shape s) = int k'" by blast
  have "k \<noteq> k'"
    using contiguous_inj [of s] assms k(2) k'(2) by (auto simp: inj_on_def)
  then show ?thesis using k k' by (simp add: py_slot_nat)
qed


section \<open>Properties of the kernels\<close>

lemma length_scatter: "length (scatter ws buf) = length buf"
  by (induction ws buf rule: scatter.induct) simp_all

lemma scatter_append: "scatter (ws1 @ ws2) buf = scatter ws2 (scatter ws1 buf)"
  by (induction ws1 buf rule: scatter.induct) simp_all

lemma scatter_miss: "k \<notin> fst ` set ws \<Longrightarrow> scatter ws buf ! k = buf ! k"
  by (induction ws buf rule: scatter.induct) auto

lemma scatter_last:
  assumes "k \<notin> fst ` set ws2" "k < length buf"
  shows "scatter (ws1 @ (k, v) # ws2) buf ! k = v"
proof -
  have "scatter (ws1 @ (k, v) # ws2) buf ! k = ((scatter ws1 buf)[k := v]) ! k"
    using assms(1) by (simp add: scatter_append scatter_miss)
  then show ?thesis using assms(2) by (simp add: length_scatter)
qed

lemma py_slot_less: "py_slot n p = Some k \<Longrightarrow> k < n"
  by (auto simp: py_slot_def split: if_splits)

lemma cell_Some: "py_slot n p = Some k \<Longrightarrow> cell n p = k"
  by (simp add: cell_def)

lemma py_get_cell: "py_slot (length xs) p \<noteq> None \<Longrightarrow> py_get xs p = Inr (xs ! cell (length xs) p)"
  by (auto simp: py_get_def cell_def)

lemma py_set_cell: "py_slot (length xs) p \<noteq> None \<Longrightarrow> py_set xs p v = Inr (xs[cell (length xs) p := v])"
  by (auto simp: py_set_def cell_def)

lemma cell_less: "py_slot n p \<noteq> None \<Longrightarrow> cell n p < n"
  by (auto simp: cell_def dest: py_slot_less)

lemma broadcast_index_bcast:
  assumes "broadcasts_into small big" "in_bounds c big" "length buf = length small"
  shows "broadcast_index c big small buf = Inr (bcast c big small)"
    and "in_bounds (bcast c big small) small"
    and "length (bcast c big small) = length small"
proof -
  from broadcast_index_ok [OF assms] obtain bc
    where bc: "broadcast_index c big small buf = Inr bc" "in_bounds bc small" by blast
  moreover have "broadcast_index c big small small = Inr bc"
    using bc(1) broadcast_index_buf [OF assms(3)] by simp
  ultimately show "broadcast_index c big small buf = Inr (bcast c big small)"
    and "in_bounds (bcast c big small) small"
    by (simp_all add: bcast_def)
  then show "length (bcast c big small) = length small"
    by (simp add: in_bounds_def)
qed

lemma map_loop_run:
  assumes "out < length h" "in_storage < length h" "out \<noteq> in_storage"
    and "broadcasts_into in_shape out_shape" "length in_bidx = length in_shape"
    and "\<forall>c \<in> set cs. in_bounds c out_shape"
    and "\<forall>c \<in> set cs. py_slot (length (h ! out)) (index_to_position c out_strides) \<noteq> None"
    and "\<forall>bc. in_bounds bc in_shape \<longrightarrow>
           py_slot (length (h ! in_storage)) (index_to_position bc in_strides) \<noteq> None"
  shows "map_loop fn out out_shape out_strides in_storage in_shape in_strides in_bidx cs h =
     (None, h[out := scatter
        (map (\<lambda>c. (cell (length (h ! out)) (index_to_position c out_strides),
                   fn (h ! in_storage ! cell (length (h ! in_storage))
                        (index_to_position (bcast c out_shape in_shape) in_strides)))) cs)
        (h ! out)])"
  using assms
proof (induction cs arbitrary: h in_bidx)
  case Nil
  then show ?case by simp
next
  case (Cons c cs)
  let ?bc = "bcast c out_shape in_shape"
  let ?k = "cell (length (h ! out)) (index_to_position c out_strides)"
  let ?v = "fn (h ! in_storage ! cell (length (h ! in_storage)) (index_to_position ?bc in_strides))"
  let ?h1 = "h[out := (h ! out)[?k := ?v]]"
  have cb: "in_bounds c out_shape" using Cons.prems(6) by simp
  have b1: "broadcast_index c out_shape in_shape in_bidx = Inr ?bc"
    and b2: "in_bounds ?bc in_shape" and b3: "length ?bc = length in_shape"
    using broadcast_index_bcast [OF Cons.prems(4) cb Cons.prems(5)] by blast+
  have g: "py_get (h ! in_storage) (index_to_position ?bc in_strides)
      = Inr (h ! in_storage ! cell (length (h ! in_storage)) (index_to_position ?bc in_strides))"
    using Cons.prems(8) b2 by (simp add: py_get_cell)
  have s: "py_set (h ! out) (index_to_position c out_strides) ?v = Inr ((h ! out)[?k := ?v])"
    using Cons.prems(7) by (simp add: py_set_cell)
  have step: "map_loop fn out out_shape out_strides in_storage in_shape in_strides in_bidx (c # cs) h
      = map_loop fn out out_shape out_strides in_storage in_shape in_strides ?bc cs ?h1"
    by (simp add: b1 g s)
  have h1o: "?h1 ! out = (h ! out)[?k := ?v]" using Cons.prems(1) by simp
  have h1i: "?h1 ! in_storage = h ! in_storage" using Cons.prems(3) by simp
  have lo: "length (?h1 ! out) = length (h ! out)" by (simp add: h1o)
  have ih: "map_loop fn out out_shape out_strides in_storage in_shape in_strides ?bc cs ?h1 =
     (None, ?h1[out := scatter
        (map (\<lambda>c. (cell (length (?h1 ! out)) (index_to_position c out_strides),
                   fn (?h1 ! in_storage ! cell (length (?h1 ! in_storage))
                        (index_to_position (bcast c out_shape in_shape) in_strides)))) cs)
        (?h1 ! out)])"
  proof (rule Cons.IH)
    show "out < length ?h1" "in_storage < length ?h1" using Cons.prems(1,2) by simp_all
    show "out \<noteq> in_storage" by fact
    show "broadcasts_into in_shape out_shape" by fact
    show "length ?bc = length in_shape" by fact
    show "\<forall>c \<in> set cs. in_bounds c out_shape" using Cons.prems(6) by simp
    show "\<forall>c \<in> set cs. py_slot (length (?h1 ! out)) (index_to_position c out_strides) \<noteq> None"
      unfolding lo using Cons.prems(7) by simp
    show "\<forall>bc. in_bounds bc in_shape \<longrightarrow>
           py_slot (length (?h1 ! in_storage)) (index_to_position bc in_strides) \<noteq> None"
      unfolding h1i using Cons.prems(8) by simp
  qed
  show ?case
    unfolding step ih unfolding lo h1i unfolding h1o by simp
qed



lemma writes_only_refl: "writes_only out ps h h"
  by (simp add: writes_only_def)

lemma writes_only_step:
  assumes "out < length h" "py_slot (length (h ! out)) p = Some k"
    and "writes_only out ps (h[out := (h ! out)[k := v]]) h'"
  shows "writes_only out (p # ps) h h'"
  using assms unfolding writes_only_def
  by (auto simp: nth_list_update split: if_splits)

lemma py_set_Inr: "py_set xs p v = Inr ys \<Longrightarrow> \<exists>k. py_slot (length xs) p = Some k \<and> ys = xs[k := v]"
  by (auto simp: py_set_def split: option.splits)

lemma map_loop_frame:
  assumes "out < length h"
  shows "writes_only out (map (\<lambda>c. index_to_position c out_strides) cs) h
           (snd (map_loop fn out out_shape out_strides in_storage in_shape in_strides in_bidx cs h))"
  using assms
proof (induction cs arbitrary: h in_bidx)
  case Nil
  then show ?case by (simp add: writes_only_refl)
next
  case (Cons c cs)
  show ?case
  proof (cases "broadcast_index c out_shape in_shape in_bidx")
    case (Inl e)
    then show ?thesis by (simp add: writes_only_refl)
  next
    case b: (Inr bc)
    show ?thesis
    proof (cases "py_get (h ! in_storage) (index_to_position bc in_strides)")
      case (Inl e)
      then show ?thesis using b by (simp add: writes_only_refl)
    next
      case g: (Inr v)
      show ?thesis
      proof (cases "py_set (h ! out) (index_to_position c out_strides) (fn v)")
        case (Inl e)
        then show ?thesis using b g by (simp add: writes_only_refl)
      next
        case s: (Inr arr)
        then obtain k where k: "py_slot (length (h ! out)) (index_to_position c out_strides) = Some k"
          and arr: "arr = (h ! out)[k := fn v]"
          using py_set_Inr [OF s] by blast
        have "writes_only out (map (\<lambda>c. index_to_position c out_strides) cs) (h[out := arr])
           (snd (map_loop fn out out_shape out_strides in_storage in_shape in_strides bc cs (h[out := arr])))"
          using Cons.prems by (intro Cons.IH) simp
        then show ?thesis
          using b g s writes_only_step [OF Cons.prems k] arr by simp
      qed
    qed
  qed
qed

lemma scatter_coords_miss:
  "\<forall>c \<in> set cs. key c \<noteq> k \<Longrightarrow> scatter (map (\<lambda>c. (key c, val c)) cs) buf ! k = buf ! k"
  by (rule scatter_miss) auto

lemma scatter_coords_last:
  assumes "sorted_wrt R cs" "c \<in> set cs"
    and "\<forall>c' \<in> set cs. R c c' \<longrightarrow> key c' \<noteq> key c" "key c < length buf"
  shows "scatter (map (\<lambda>c. (key c, val c)) cs) buf ! key c = val c"
proof -
  from assms(2) obtain cs1 cs2 where cs: "cs = cs1 @ c # cs2"
    by (auto dest: split_list)
  with assms(1) have "\<forall>y \<in> set cs2. R c y"
    by (simp add: sorted_wrt_append)
  with assms(3) cs have "\<forall>y \<in> set cs2. key y \<noteq> key c" by auto
  then have "key c \<notin> fst ` set (map (\<lambda>c. (key c, val c)) cs2)" by auto
  from scatter_last [OF this assms(4), of "map (\<lambda>c. (key c, val c)) cs1" "val c"]
  show ?thesis by (simp add: cs)
qed

lemma view_ok_iff:
  "view_ok buf shp strd \<longleftrightarrow>
     (\<forall>c. in_bounds c shp \<longrightarrow> py_slot (length buf) (index_to_position c strd) \<noteq> None)"
  using indices_set [of shp] by (auto simp: view_ok_def positions_def list_all_iff)

lemma cell_eq_slot:
  "py_slot n p \<noteq> None \<Longrightarrow> py_slot n q \<noteq> None \<Longrightarrow> cell n p = cell n q \<longleftrightarrow> py_slot n p = py_slot n q"
  by (auto simp: cell_def)

lemma tensor_map_effect:
  assumes "broadcasts_into in_shape out_shape"
    and "out < length h" "in_storage < length h" "out \<noteq> in_storage"
    and "view_ok (h ! out) out_shape out_strides"
    and "view_ok (h ! in_storage) in_shape in_strides"
  shows "\<exists>h'. tensor_map fn out out_shape out_strides in_storage in_shape in_strides h = (None, h')
     \<and> (\<forall>c \<in> set (indices out_shape).
          (\<forall>c' \<in> set (indices out_shape). row_major_less c c' \<longrightarrow>
              py_slot (length (h ! out)) (index_to_position c' out_strides)
                \<noteq> py_slot (length (h ! out)) (index_to_position c out_strides)) \<longrightarrow>
          (\<exists>bc v. broadcast_index c out_shape in_shape in_shape = Inr bc
              \<and> in_bounds bc in_shape
              \<and> py_get (h ! in_storage) (index_to_position bc in_strides) = Inr v
              \<and> py_get (h' ! out) (index_to_position c out_strides) = Inr (fn v)))
     \<and> writes_only out (positions out_shape out_strides) h h'"
proof -
  let ?n = "length (h ! out)"
  let ?key = "\<lambda>c. cell ?n (index_to_position c out_strides)"
  let ?val = "\<lambda>c. fn (h ! in_storage ! cell (length (h ! in_storage))
                        (index_to_position (bcast c out_shape in_shape) in_strides))"
  let ?buf = "scatter (map (\<lambda>c. (?key c, ?val c)) (indices out_shape)) (h ! out)"
  let ?h' = "h[out := ?buf]"
  have inb: "\<forall>c \<in> set (indices out_shape). in_bounds c out_shape"
    by (simp add: indices_set)
  have oks: "\<forall>c \<in> set (indices out_shape). py_slot ?n (index_to_position c out_strides) \<noteq> None"
    using assms(5) inb by (simp add: view_ok_iff)
  have iks: "\<forall>bc. in_bounds bc in_shape \<longrightarrow>
           py_slot (length (h ! in_storage)) (index_to_position bc in_strides) \<noteq> None"
    using assms(6) by (simp add: view_ok_iff)
  have run: "tensor_map fn out out_shape out_strides in_storage in_shape in_strides h = (None, ?h')"
    unfolding tensor_map_def
    by (rule map_loop_run [OF assms(2,3,4,1) refl inb oks iks])
  have ho: "?h' ! out = ?buf" using assms(2) by simp
  have frame: "writes_only out (positions out_shape out_strides) h ?h'"
    using map_loop_frame [OF assms(2), of out_strides "indices out_shape" fn out_shape in_storage in_shape in_strides in_shape]
    by (simp add: positions_def run [unfolded tensor_map_def])
  have vals: "\<exists>bc v. broadcast_index c out_shape in_shape in_shape = Inr bc
              \<and> in_bounds bc in_shape
              \<and> py_get (h ! in_storage) (index_to_position bc in_strides) = Inr v
              \<and> py_get (?h' ! out) (index_to_position c out_strides) = Inr (fn v)"
    if c: "c \<in> set (indices out_shape)"
      and later: "\<forall>c' \<in> set (indices out_shape). row_major_less c c' \<longrightarrow>
              py_slot ?n (index_to_position c' out_strides) \<noteq> py_slot ?n (index_to_position c out_strides)"
    for c
  proof -
    let ?bc = "bcast c out_shape in_shape"
    have cb: "in_bounds c out_shape" using c inb by blast
    have b1: "broadcast_index c out_shape in_shape in_shape = Inr ?bc"
      and b2: "in_bounds ?bc in_shape"
      using broadcast_index_bcast [OF assms(1) cb refl] by blast+
    have g: "py_get (h ! in_storage) (index_to_position ?bc in_strides)
        = Inr (h ! in_storage ! cell (length (h ! in_storage)) (index_to_position ?bc in_strides))"
      using iks b2 by (simp add: py_get_cell)
    have ok: "py_slot ?n (index_to_position c out_strides) \<noteq> None" using oks c by blast
    have nk: "\<forall>c' \<in> set (indices out_shape). row_major_less c c' \<longrightarrow> ?key c' \<noteq> ?key c"
      using later oks ok by (simp add: cell_eq_slot)
    have "?buf ! ?key c = ?val c"
      by (rule scatter_coords_last [OF indices_sorted c nk]) (simp add: cell_less ok)
    moreover have "py_get ?buf (index_to_position c out_strides) = Inr (?buf ! ?key c)"
      using ok py_get_cell [of ?buf "index_to_position c out_strides"] by (simp add: length_scatter)
    ultimately have "py_get (?h' ! out) (index_to_position c out_strides) = Inr (?val c)"
      unfolding ho by simp
    with b1 b2 g show ?thesis by blast
  qed
  from run vals frame show ?thesis by blast
qed

lemma map_loop_steps:
  assumes "out < length h" "in_storage < length h"
    and "broadcasts_into in_shape out_shape" "length in_bidx = length in_shape"
    and "\<forall>c \<in> set cs. in_bounds c out_shape"
    and "\<forall>c \<in> set cs. py_slot (length (h ! out)) (index_to_position c out_strides) \<noteq> None"
    and "\<forall>bc. in_bounds bc in_shape \<longrightarrow>
           py_slot (length (h ! in_storage)) (index_to_position bc in_strides) \<noteq> None"
  shows "map_loop fn out out_shape out_strides in_storage in_shape in_strides in_bidx cs h =
     (None, foldl (map_step fn out out_shape out_strides in_storage in_shape in_strides) h cs)"
  using assms
proof (induction cs arbitrary: h in_bidx)
  case Nil
  then show ?case by simp
next
  case (Cons c cs)
  let ?bc = "bcast c out_shape in_shape"
  let ?k = "cell (length (h ! out)) (index_to_position c out_strides)"
  let ?v = "fn (h ! in_storage ! cell (length (h ! in_storage)) (index_to_position ?bc in_strides))"
  let ?h1 = "map_step fn out out_shape out_strides in_storage in_shape in_strides h c"
  have h1: "?h1 = h[out := (h ! out)[?k := ?v]]" by (simp add: map_step_def)
  have cb: "in_bounds c out_shape" using Cons.prems(5) by simp
  have b1: "broadcast_index c out_shape in_shape in_bidx = Inr ?bc"
    and b2: "in_bounds ?bc in_shape" and b3: "length ?bc = length in_shape"
    using broadcast_index_bcast [OF Cons.prems(3) cb Cons.prems(4)] by blast+
  have g: "py_get (h ! in_storage) (index_to_position ?bc in_strides)
      = Inr (h ! in_storage ! cell (length (h ! in_storage)) (index_to_position ?bc in_strides))"
    using Cons.prems(7) b2 by (simp add: py_get_cell)
  have s: "py_set (h ! out) (index_to_position c out_strides) ?v = Inr ((h ! out)[?k := ?v])"
    using Cons.prems(6) by (simp add: py_set_cell)
  have step: "map_loop fn out out_shape out_strides in_storage in_shape in_strides in_bidx (c # cs) h
      = map_loop fn out out_shape out_strides in_storage in_shape in_strides ?bc cs ?h1"
    by (simp add: b1 g s h1)
  have lo: "length (?h1 ! out) = length (h ! out)"
    unfolding h1 using Cons.prems(1) by simp
  have li: "length (?h1 ! in_storage) = length (h ! in_storage)"
    unfolding h1 using Cons.prems(1) by (cases "in_storage = out") simp_all
  have ih: "map_loop fn out out_shape out_strides in_storage in_shape in_strides ?bc cs ?h1 =
     (None, foldl (map_step fn out out_shape out_strides in_storage in_shape in_strides) ?h1 cs)"
  proof (rule Cons.IH)
    show "out < length ?h1" "in_storage < length ?h1"
      unfolding h1 using Cons.prems(1,2) by simp_all
    show "broadcasts_into in_shape out_shape" by fact
    show "length ?bc = length in_shape" by fact
    show "\<forall>c \<in> set cs. in_bounds c out_shape" using Cons.prems(5) by simp
    show "\<forall>c \<in> set cs. py_slot (length (?h1 ! out)) (index_to_position c out_strides) \<noteq> None"
      unfolding lo using Cons.prems(6) by simp
    show "\<forall>bc. in_bounds bc in_shape \<longrightarrow>
           py_slot (length (?h1 ! in_storage)) (index_to_position bc in_strides) \<noteq> None"
      unfolding li using Cons.prems(7) by simp
  qed
  show ?case unfolding step ih by simp
qed

lemma tensor_map_steps:
  assumes "broadcasts_into in_shape out_shape"
    and "out < length h" "in_storage < length h"
    and "view_ok (h ! out) out_shape out_strides"
    and "view_ok (h ! in_storage) in_shape in_strides"
  shows "tensor_map fn out out_shape out_strides in_storage in_shape in_strides h =
     (None, foldl (map_step fn out out_shape out_strides in_storage in_shape in_strides) h
              (indices out_shape))"
proof -
  have inb: "\<forall>c \<in> set (indices out_shape). in_bounds c out_shape"
    by (simp add: indices_set)
  have oks: "\<forall>c \<in> set (indices out_shape).
      py_slot (length (h ! out)) (index_to_position c out_strides) \<noteq> None"
    using assms(4) inb by (simp add: view_ok_iff)
  have iks: "\<forall>bc. in_bounds bc in_shape \<longrightarrow>
           py_slot (length (h ! in_storage)) (index_to_position bc in_strides) \<noteq> None"
    using assms(5) by (simp add: view_ok_iff)
  show ?thesis
    unfolding tensor_map_def
    by (rule map_loop_steps [OF assms(2,3,1) refl inb oks iks])
qed

text \<open>
  Claim C1. Let \<open>in_shape\<close> broadcast into \<open>out_shape\<close> and let the output and the input
  buffer each fit its shape and strides. Then the kernel returned by \<open>tensor_map(fn)\<close>
  returns normally, and what it has done is, for every coordinate \<open>c\<close> of \<open>out_shape\<close> in
  turn, to write \<open>fn(in_storage[position(broadcast_index(c), in_strides)])\<close> to
  \<open>out[position(c, out_strides)]\<close>, and nothing else: every other buffer, and every cell
  of \<open>out\<close> that is the position of no coordinate of \<open>out_shape\<close>, is as before. When
  the two buffers are distinct, the cell of \<open>c\<close> holds at the end \<open>fn\<close> of the input
  value as it was before the call, unless a later coordinate has the same cell.
\<close>

theorem tensor_map_writes:
  assumes "broadcasts_into in_shape out_shape"
    and "out < length h" "in_storage < length h"
    and "view_ok (h ! out) out_shape out_strides"
    and "view_ok (h ! in_storage) in_shape in_strides"
  shows "\<exists>h'. tensor_map fn out out_shape out_strides in_storage in_shape in_strides h = (None, h')
     \<and> h' = foldl (map_step fn out out_shape out_strides in_storage in_shape in_strides) h
              (indices out_shape)
     \<and> writes_only out (positions out_shape out_strides) h h'
     \<and> (out \<noteq> in_storage \<longrightarrow>
         (\<forall>c \<in> set (indices out_shape).
            (\<forall>c' \<in> set (indices out_shape). row_major_less c c' \<longrightarrow>
                py_slot (length (h ! out)) (index_to_position c' out_strides)
                  \<noteq> py_slot (length (h ! out)) (index_to_position c out_strides)) \<longrightarrow>
            (\<exists>bc v. broadcast_index c out_shape in_shape in_shape = Inr bc
                \<and> in_bounds bc in_shape
                \<and> py_get (h ! in_storage) (index_to_position bc in_strides) = Inr v
                \<and> py_get (h' ! out) (index_to_position c out_strides) = Inr (fn v))))"
proof -
  let ?h' = "foldl (map_step fn out out_shape out_strides in_storage in_shape in_strides) h
              (indices out_shape)"
  have run: "tensor_map fn out out_shape out_strides in_storage in_shape in_strides h = (None, ?h')"
    by (rule tensor_map_steps [OF assms])
  have frame: "writes_only out (positions out_shape out_strides) h ?h'"
    using map_loop_frame [OF assms(2), of out_strides "indices out_shape" fn out_shape
        in_storage in_shape in_strides in_shape]
    by (simp add: positions_def run [unfolded tensor_map_def])
  have vals: "\<forall>c \<in> set (indices out_shape).
            (\<forall>c' \<in> set (indices out_shape). row_major_less c c' \<longrightarrow>
                py_slot (length (h ! out)) (index_to_position c' out_strides)
                  \<noteq> py_slot (length (h ! out)) (index_to_position c out_strides)) \<longrightarrow>
            (\<exists>bc v. broadcast_index c out_shape in_shape in_shape = Inr bc
                \<and> in_bounds bc in_shape
                \<and> py_get (h ! in_storage) (index_to_position bc in_strides) = Inr v
                \<and> py_get (?h' ! out) (index_to_position c out_strides) = Inr (fn v))"
    if ne: "out \<noteq> in_storage"
    using tensor_map_effect [OF assms(1,2,3) ne assms(4,5), of fn] unfolding run by blast
  from run frame vals show ?thesis by blast
qed


theorem tensor_map_writes_witness:
  "broadcasts_into [3] [2, 3]
   \<and> view_ok [0, 0, 0, 0, 0, 0, 7 :: int] [2, 3] [3, 1]
   \<and> view_ok [10, 20, 30 :: int] [3] [1]
   \<and> tensor_map (\<lambda>x. x + 1) 0 [2, 3] [3, 1] 1 [3] [1] [[0, 0, 0, 0, 0, 0, 7], [10, 20, 30 :: int]]
       = (None, [[11, 21, 31, 11, 21, 31, 7], [10, 20, 30]])
   \<and> (\<exists>h'. tensor_map (\<lambda>x. x + 1) 0 [2, 3] [3, 1] 1 [3] [1]
               [[0, 0, 0, 0, 0, 0, 7], [10, 20, 30 :: int]] = (None, h')
          \<and> writes_only 0 (positions [2, 3] [3, 1]) [[0, 0, 0, 0, 0, 0, 7], [10, 20, 30]] h')"
proof -
  let ?h = "[[0, 0, 0, 0, 0, 0, 7], [10, 20, 30 :: int]]"
  have a: "broadcasts_into [3] [2, 3]" by code_simp
  have b: "view_ok (?h ! 0) [2, 3] [3, 1]" by code_simp
  have c: "view_ok (?h ! 1) [3] [1]" by code_simp
  have v: "tensor_map (\<lambda>x. x + 1) 0 [2, 3] [3, 1] 1 [3] [1] ?h
       = (None, [[11, 21, 31, 11, 21, 31, 7], [10, 20, 30]])" by code_simp
  have l: "0 < length ?h" "1 < length ?h" by simp_all
  from tensor_map_writes [OF a l b c, of "\<lambda>x. x + 1"]
  have "\<exists>h'. tensor_map (\<lambda>x. x + 1) 0 [2, 3] [3, 1] 1 [3] [1] ?h = (None, h')
          \<and> writes_only 0 (positions [2, 3] [3, 1]) ?h h'"
    by blast
  with a b c v show ?thesis by simp
qed


lemma writes_only_D:
  assumes "writes_only out ps h h'"
  shows "length h' = length h" and "\<And>j. j < length h \<Longrightarrow> j \<noteq> out \<Longrightarrow> h' ! j = h ! j"
    and "length (h' ! out) = length (h ! out)"
  using assms unfolding writes_only_def by blast+

lemma zeros_eq:
  "zeros h shp = (\<lparr>storage = length h, shape = shp, strides = strides_from_shape shp\<rparr>,
      h @ [replicate (size_of shp) 0])"
  by (simp add: zeros_def)

text \<open>
  Claim C7. For every tensor \<open>a\<close> whose buffer fits its shape and strides, \<open>map(id)\<close>
  called on \<open>a\<close> with no output tensor returns a tensor on a buffer that did not exist
  before (all buffers that existed are unchanged), of the shape of \<open>a\<close>, whose value at
  every coordinate is the value of \<open>a\<close> at that coordinate.
\<close>

theorem map_id_preserves:
  fixes h :: "'a::zero heap"
  assumes "storage a < length h" "view_ok (h ! storage a) (shape a) (strides a)"
  shows "\<exists>out h'. tensor_ops_map id_op a None h = (Inr out, h')
      \<and> storage out = length h \<and> length h' = Suc (length h) \<and> (\<forall>j < length h. h' ! j = h ! j)
      \<and> shape out = shape a
      \<and> (\<forall>c \<in> set (indices (shape a)).
            \<exists>v. py_get (h ! storage a) (index_to_position c (strides a)) = Inr v
               \<and> py_get (h' ! storage out) (index_to_position c (strides out)) = Inr v)"
proof -
  let ?s = "shape a"
  let ?st = "strides_from_shape ?s"
  let ?o = "length h"
  let ?out = "\<lparr>storage = ?o, shape = ?s, strides = ?st\<rparr>"
  let ?h1 = "h @ [replicate (size_of ?s) (0::'a)]"
  have h1o: "?h1 ! ?o = replicate (size_of ?s) 0" by simp
  have h1a: "?h1 ! storage a = h ! storage a" using assms(1) by (simp add: nth_append)
  have p1: "broadcasts_into ?s ?s" by (simp add: broadcasts_into_def shape_broadcast_same)
  have p2: "?o < length ?h1" "storage a < length ?h1" "?o \<noteq> storage a"
    using assms(1) by simp_all
  have p3: "view_ok (?h1 ! ?o) ?s ?st" unfolding h1o by (rule contiguous_view_ok) simp
  have p4: "view_ok (?h1 ! storage a) ?s (strides a)" unfolding h1a by (rule assms(2))
  from tensor_map_effect [OF p1 p2 p3 p4, of id_op] obtain h'
    where run: "tensor_map id_op ?o ?s ?st (storage a) ?s (strides a) ?h1 = (None, h')"
      and vals: "\<forall>c \<in> set (indices ?s).
          (\<forall>c' \<in> set (indices ?s). row_major_less c c' \<longrightarrow>
              py_slot (length (?h1 ! ?o)) (index_to_position c' ?st)
                \<noteq> py_slot (length (?h1 ! ?o)) (index_to_position c ?st)) \<longrightarrow>
          (\<exists>bc v. broadcast_index c ?s ?s ?s = Inr bc
              \<and> in_bounds bc ?s
              \<and> py_get (?h1 ! storage a) (index_to_position bc (strides a)) = Inr v
              \<and> py_get (h' ! ?o) (index_to_position c ?st) = Inr (id_op v))"
      and frame: "writes_only ?o (positions ?s ?st) ?h1 h'"
    by blast
  have res: "tensor_ops_map id_op a None h = (Inr ?out, h')"
    by (simp add: tensor_ops_map_def zeros_eq run)
  have len: "length h' = Suc (length h)" using writes_only_D(1) [OF frame] by simp
  have old: "\<forall>j < length h. h' ! j = h ! j"
  proof (intro allI impI)
    fix j assume j: "j < length h"
    then have "h' ! j = ?h1 ! j" using writes_only_D(2) [OF frame, of j] by simp
    then show "h' ! j = h ! j" using j by (simp add: nth_append)
  qed
  have each: "\<exists>v. py_get (h ! storage a) (index_to_position c (strides a)) = Inr v
               \<and> py_get (h' ! storage ?out) (index_to_position c (strides ?out)) = Inr v"
    if c: "c \<in> set (indices ?s)" for c
  proof -
    have nolater: "\<forall>c' \<in> set (indices ?s). row_major_less c c' \<longrightarrow>
              py_slot (length (?h1 ! ?o)) (index_to_position c' ?st)
                \<noteq> py_slot (length (?h1 ! ?o)) (index_to_position c ?st)"
    proof (intro ballI impI)
      fix c' assume c': "c' \<in> set (indices ?s)" and "row_major_less c c'"
      then have "c \<noteq> c'" using row_major_less_irrefl by blast
      from contiguous_slots_distinct [OF c c' this]
      show "py_slot (length (?h1 ! ?o)) (index_to_position c' ?st)
                \<noteq> py_slot (length (?h1 ! ?o)) (index_to_position c ?st)"
        unfolding h1o by simp
    qed
    with vals c obtain bc v where bc: "broadcast_index c ?s ?s ?s = Inr bc"
      and g: "py_get (?h1 ! storage a) (index_to_position bc (strides a)) = Inr v"
      and w: "py_get (h' ! ?o) (index_to_position c ?st) = Inr (id_op v)"
      by blast
    have "in_bounds c ?s" using c by (simp add: indices_set)
    then have "bc = c" using bc broadcast_index_same by simp
    with g w show ?thesis unfolding h1a by (simp add: id_op_def)
  qed
  from res len old each show ?thesis by (intro exI [of _ ?out] exI [of _ h']) simp
qed


theorem map_id_preserves_witness:
  "view_ok [1, 2, 3, 4 :: int] [2, 2] [1, 2]
   \<and> tensor_ops_map id_op \<lparr>storage = 0, shape = [2, 2], strides = [1, 2]\<rparr> None [[1, 2, 3, 4 :: int]]
       = (Inr \<lparr>storage = 1, shape = [2, 2], strides = [2, 1]\<rparr>, [[1, 2, 3, 4], [1, 3, 2, 4]])
   \<and> (\<exists>out h'. tensor_ops_map id_op \<lparr>storage = 0, shape = [2, 2], strides = [1, 2]\<rparr> None
                  [[1, 2, 3, 4 :: int]] = (Inr out, h')
          \<and> storage out = 1 \<and> shape out = [2, 2])"
proof -
  let ?a = "\<lparr>storage = 0, shape = [2, 2], strides = [1, 2]\<rparr>"
  let ?h = "[[1, 2, 3, 4 :: int]]"
  have l: "storage ?a < length ?h" by simp
  have b: "view_ok (?h ! storage ?a) (shape ?a) (strides ?a)" by code_simp
  have v: "tensor_ops_map id_op ?a None ?h
       = (Inr \<lparr>storage = 1, shape = [2, 2], strides = [2, 1]\<rparr>, [[1, 2, 3, 4], [1, 3, 2, 4]])"
    by code_simp
  show ?thesis
    using b v map_id_preserves [OF l b] by simp
qed


lemma zip_loop_run:
  assumes "out < length h" "a_storage < length h" "b_storage < length h"
    and "out \<noteq> a_storage" "out \<noteq> b_storage"
    and "broadcasts_into a_shape out_shape" "broadcasts_into b_shape out_shape"
    and "length a_bidx = length a_shape" "length b_bidx = length b_shape"
    and "\<forall>c \<in> set cs. in_bounds c out_shape"
    and "\<forall>c \<in> set cs. py_slot (length (h ! out)) (index_to_position c out_strides) \<noteq> None"
    and "\<forall>bc. in_bounds bc a_shape \<longrightarrow>
           py_slot (length (h ! a_storage)) (index_to_position bc a_strides) \<noteq> None"
    and "\<forall>bc. in_bounds bc b_shape \<longrightarrow>
           py_slot (length (h ! b_storage)) (index_to_position bc b_strides) \<noteq> None"
  shows "zip_loop fn out out_shape out_strides a_storage a_shape a_strides
           b_storage b_shape b_strides a_bidx b_bidx cs h =
     (None, h[out := scatter
        (map (\<lambda>c. (cell (length (h ! out)) (index_to_position c out_strides),
                   fn (h ! a_storage ! cell (length (h ! a_storage))
                        (index_to_position (bcast c out_shape a_shape) a_strides))
                      (h ! b_storage ! cell (length (h ! b_storage))
                        (index_to_position (bcast c out_shape b_shape) b_strides)))) cs)
        (h ! out)])"
  using assms
proof (induction cs arbitrary: h a_bidx b_bidx)
  case Nil
  then show ?case by simp
next
  case (Cons c cs)
  let ?ca = "bcast c out_shape a_shape"
  let ?cb = "bcast c out_shape b_shape"
  let ?k = "cell (length (h ! out)) (index_to_position c out_strides)"
  let ?x = "h ! a_storage ! cell (length (h ! a_storage)) (index_to_position ?ca a_strides)"
  let ?y = "h ! b_storage ! cell (length (h ! b_storage)) (index_to_position ?cb b_strides)"
  let ?h1 = "h[out := (h ! out)[?k := fn ?x ?y]]"
  have cb: "in_bounds c out_shape" using Cons.prems(10) by simp
  have a1: "broadcast_index c out_shape a_shape a_bidx = Inr ?ca"
    and a2: "in_bounds ?ca a_shape" and a3: "length ?ca = length a_shape"
    using broadcast_index_bcast [OF Cons.prems(6) cb Cons.prems(8)] by blast+
  have b1: "broadcast_index c out_shape b_shape b_bidx = Inr ?cb"
    and b2: "in_bounds ?cb b_shape" and b3: "length ?cb = length b_shape"
    using broadcast_index_bcast [OF Cons.prems(7) cb Cons.prems(9)] by blast+
  have ga: "py_get (h ! a_storage) (index_to_position ?ca a_strides) = Inr ?x"
    using Cons.prems(12) a2 by (simp add: py_get_cell)
  have gb: "py_get (h ! b_storage) (index_to_position ?cb b_strides) = Inr ?y"
    using Cons.prems(13) b2 by (simp add: py_get_cell)
  have s: "py_set (h ! out) (index_to_position c out_strides) (fn ?x ?y)
      = Inr ((h ! out)[?k := fn ?x ?y])"
    using Cons.prems(11) by (simp add: py_set_cell)
  have step: "zip_loop fn out out_shape out_strides a_storage a_shape a_strides
           b_storage b_shape b_strides a_bidx b_bidx (c # cs) h
      = zip_loop fn out out_shape out_strides a_storage a_shape a_strides
           b_storage b_shape b_strides ?ca ?cb cs ?h1"
    by (simp add: a1 b1 ga gb s)
  have h1o: "?h1 ! out = (h ! out)[?k := fn ?x ?y]" using Cons.prems(1) by simp
  have h1a: "?h1 ! a_storage = h ! a_storage" using Cons.prems(4) by simp
  have h1b: "?h1 ! b_storage = h ! b_storage" using Cons.prems(5) by simp
  have lo: "length (?h1 ! out) = length (h ! out)" by (simp add: h1o)
  have ih: "zip_loop fn out out_shape out_strides a_storage a_shape a_strides
           b_storage b_shape b_strides ?ca ?cb cs ?h1 =
     (None, ?h1[out := scatter
        (map (\<lambda>c. (cell (length (?h1 ! out)) (index_to_position c out_strides),
                   fn (?h1 ! a_storage ! cell (length (?h1 ! a_storage))
                        (index_to_position (bcast c out_shape a_shape) a_strides))
                      (?h1 ! b_storage ! cell (length (?h1 ! b_storage))
                        (index_to_position (bcast c out_shape b_shape) b_strides)))) cs)
        (?h1 ! out)])"
  proof (rule Cons.IH)
    show "out < length ?h1" "a_storage < length ?h1" "b_storage < length ?h1"
      using Cons.prems(1,2,3) by simp_all
    show "out \<noteq> a_storage" "out \<noteq> b_storage" by fact+
    show "broadcasts_into a_shape out_shape" "broadcasts_into b_shape out_shape" by fact+
    show "length ?ca = length a_shape" "length ?cb = length b_shape" by fact+
    show "\<forall>c \<in> set cs. in_bounds c out_shape" using Cons.prems(10) by simp
    show "\<forall>c \<in> set cs. py_slot (length (?h1 ! out)) (index_to_position c out_strides) \<noteq> None"
      unfolding lo using Cons.prems(11) by simp
    show "\<forall>bc. in_bounds bc a_shape \<longrightarrow>
           py_slot (length (?h1 ! a_storage)) (index_to_position bc a_strides) \<noteq> None"
      unfolding h1a using Cons.prems(12) by simp
    show "\<forall>bc. in_bounds bc b_shape \<longrightarrow>
           py_slot (length (?h1 ! b_storage)) (index_to_position bc b_strides) \<noteq> None"
      unfolding h1b using Cons.prems(13) by simp
  qed
  show ?case
    unfolding step ih unfolding lo h1a h1b unfolding h1o by simp
qed

lemma zip_loop_frame:
  assumes "out < length h"
  shows "writes_only out (map (\<lambda>c. index_to_position c out_strides) cs) h
           (snd (zip_loop fn out out_shape out_strides a_storage a_shape a_strides
                   b_storage b_shape b_strides a_bidx b_bidx cs h))"
  using assms
proof (induction cs arbitrary: h a_bidx b_bidx)
  case Nil
  then show ?case by (simp add: writes_only_refl)
next
  case (Cons c cs)
  show ?case
  proof (cases "broadcast_index c out_shape a_shape a_bidx")
    case (Inl e)
    then show ?thesis by (simp add: writes_only_refl)
  next
    case ba: (Inr ca)
    show ?thesis
    proof (cases "broadcast_index c out_shape b_shape b_bidx")
      case (Inl e)
      then show ?thesis using ba by (simp add: writes_only_refl)
    next
      case bb: (Inr cb)
      show ?thesis
      proof (cases "py_get (h ! a_storage) (index_to_position ca a_strides)")
        case (Inl e)
        then show ?thesis using ba bb by (simp add: writes_only_refl)
      next
        case ga: (Inr x)
        show ?thesis
        proof (cases "py_get (h ! b_storage) (index_to_position cb b_strides)")
          case (Inl e)
          then show ?thesis using ba bb ga by (simp add: writes_only_refl)
        next
          case gb: (Inr y)
          show ?thesis
          proof (cases "py_set (h ! out) (index_to_position c out_strides) (fn x y)")
            case (Inl e)
            then show ?thesis using ba bb ga gb by (simp add: writes_only_refl)
          next
            case s: (Inr arr)
            obtain k where k: "py_slot (length (h ! out)) (index_to_position c out_strides) = Some k"
              and arr: "arr = (h ! out)[k := fn x y]"
              using py_set_Inr [OF s] by blast
            have "writes_only out (map (\<lambda>c. index_to_position c out_strides) cs) (h[out := arr])
               (snd (zip_loop fn out out_shape out_strides a_storage a_shape a_strides
                   b_storage b_shape b_strides ca cb cs (h[out := arr])))"
              using Cons.prems by (intro Cons.IH) simp
            then show ?thesis
              using ba bb ga gb s writes_only_step [OF Cons.prems k] arr by simp
          qed
        qed
      qed
    qed
  qed
qed

lemma tensor_zip_effect:
  assumes "broadcasts_into a_shape out_shape" "broadcasts_into b_shape out_shape"
    and "out < length h" "a_storage < length h" "b_storage < length h"
    and "out \<noteq> a_storage" "out \<noteq> b_storage"
    and "view_ok (h ! out) out_shape out_strides"
    and "view_ok (h ! a_storage) a_shape a_strides"
    and "view_ok (h ! b_storage) b_shape b_strides"
  shows "\<exists>h'. tensor_zip fn out out_shape out_strides a_storage a_shape a_strides
                 b_storage b_shape b_strides h = (None, h')
     \<and> (\<forall>c \<in> set (indices out_shape).
          (\<forall>c' \<in> set (indices out_shape). row_major_less c c' \<longrightarrow>
              py_slot (length (h ! out)) (index_to_position c' out_strides)
                \<noteq> py_slot (length (h ! out)) (index_to_position c out_strides)) \<longrightarrow>
          (\<exists>ca cb x y. broadcast_index c out_shape a_shape a_shape = Inr ca
              \<and> in_bounds ca a_shape
              \<and> broadcast_index c out_shape b_shape b_shape = Inr cb
              \<and> in_bounds cb b_shape
              \<and> py_get (h ! a_storage) (index_to_position ca a_strides) = Inr x
              \<and> py_get (h ! b_storage) (index_to_position cb b_strides) = Inr y
              \<and> py_get (h' ! out) (index_to_position c out_strides) = Inr (fn x y)))
     \<and> writes_only out (positions out_shape out_strides) h h'"
proof -
  let ?n = "length (h ! out)"
  let ?key = "\<lambda>c. cell ?n (index_to_position c out_strides)"
  let ?xa = "\<lambda>c. h ! a_storage ! cell (length (h ! a_storage))
                        (index_to_position (bcast c out_shape a_shape) a_strides)"
  let ?xb = "\<lambda>c. h ! b_storage ! cell (length (h ! b_storage))
                        (index_to_position (bcast c out_shape b_shape) b_strides)"
  let ?val = "\<lambda>c. fn (?xa c) (?xb c)"
  let ?buf = "scatter (map (\<lambda>c. (?key c, ?val c)) (indices out_shape)) (h ! out)"
  let ?h' = "h[out := ?buf]"
  have inb: "\<forall>c \<in> set (indices out_shape). in_bounds c out_shape"
    by (simp add: indices_set)
  have oks: "\<forall>c \<in> set (indices out_shape). py_slot ?n (index_to_position c out_strides) \<noteq> None"
    using assms(8) inb by (simp add: view_ok_iff)
  have aks: "\<forall>bc. in_bounds bc a_shape \<longrightarrow>
           py_slot (length (h ! a_storage)) (index_to_position bc a_strides) \<noteq> None"
    using assms(9) by (simp add: view_ok_iff)
  have bks: "\<forall>bc. in_bounds bc b_shape \<longrightarrow>
           py_slot (length (h ! b_storage)) (index_to_position bc b_strides) \<noteq> None"
    using assms(10) by (simp add: view_ok_iff)
  have run: "tensor_zip fn out out_shape out_strides a_storage a_shape a_strides
                 b_storage b_shape b_strides h = (None, ?h')"
    unfolding tensor_zip_def
    by (rule zip_loop_run [OF assms(3,4,5,6,7,1,2) refl refl inb oks aks bks])
  have ho: "?h' ! out = ?buf" using assms(3) by simp
  have frame: "writes_only out (positions out_shape out_strides) h ?h'"
    using zip_loop_frame [OF assms(3), of out_strides "indices out_shape" fn out_shape
        a_storage a_shape a_strides b_storage b_shape b_strides a_shape b_shape]
    by (simp add: positions_def run [unfolded tensor_zip_def])
  have vals: "\<exists>ca cb x y. broadcast_index c out_shape a_shape a_shape = Inr ca
              \<and> in_bounds ca a_shape
              \<and> broadcast_index c out_shape b_shape b_shape = Inr cb
              \<and> in_bounds cb b_shape
              \<and> py_get (h ! a_storage) (index_to_position ca a_strides) = Inr x
              \<and> py_get (h ! b_storage) (index_to_position cb b_strides) = Inr y
              \<and> py_get (?h' ! out) (index_to_position c out_strides) = Inr (fn x y)"
    if c: "c \<in> set (indices out_shape)"
      and later: "\<forall>c' \<in> set (indices out_shape). row_major_less c c' \<longrightarrow>
              py_slot ?n (index_to_position c' out_strides) \<noteq> py_slot ?n (index_to_position c out_strides)"
    for c
  proof -
    let ?ca = "bcast c out_shape a_shape"
    let ?cb = "bcast c out_shape b_shape"
    have cb: "in_bounds c out_shape" using c inb by blast
    have a1: "broadcast_index c out_shape a_shape a_shape = Inr ?ca"
      and a2: "in_bounds ?ca a_shape"
      using broadcast_index_bcast [OF assms(1) cb refl] by blast+
    have b1: "broadcast_index c out_shape b_shape b_shape = Inr ?cb"
      and b2: "in_bounds ?cb b_shape"
      using broadcast_index_bcast [OF assms(2) cb refl] by blast+
    have ga: "py_get (h ! a_storage) (index_to_position ?ca a_strides) = Inr (?xa c)"
      using aks a2 by (simp add: py_get_cell)
    have gb: "py_get (h ! b_storage) (index_to_position ?cb b_strides) = Inr (?xb c)"
      using bks b2 by (simp add: py_get_cell)
    have ok: "py_slot ?n (index_to_position c out_strides) \<noteq> None" using oks c by blast
    have nk: "\<forall>c' \<in> set (indices out_shape). row_major_less c c' \<longrightarrow> ?key c' \<noteq> ?key c"
      using later oks ok by (simp add: cell_eq_slot)
    have "?buf ! ?key c = ?val c"
      by (rule scatter_coords_last [OF indices_sorted c nk]) (simp add: cell_less ok)
    moreover have "py_get ?buf (index_to_position c out_strides) = Inr (?buf ! ?key c)"
      using ok py_get_cell [of ?buf "index_to_position c out_strides"] by (simp add: length_scatter)
    ultimately have "py_get (?h' ! out) (index_to_position c out_strides) = Inr (?val c)"
      unfolding ho by simp
    with a1 a2 b1 b2 ga gb show ?thesis by blast
  qed
  from run vals frame show ?thesis by blast
qed



lemma zip_on_fresh:
  fixes h :: "'a::zero heap"
  assumes "broadcasts_into (shape a) cs" "broadcasts_into (shape b) cs"
    and "storage a < length h" "storage b < length h"
    and "view_ok (h ! storage a) (shape a) (strides a)"
    and "view_ok (h ! storage b) (shape b) (strides b)"
  shows "\<exists>h'. tensor_zip fn (length h) cs (strides_from_shape cs)
                 (storage a) (shape a) (strides a) (storage b) (shape b) (strides b)
                 (h @ [replicate (size_of cs) 0]) = (None, h')
      \<and> length h' = Suc (length h) \<and> (\<forall>j < length h. h' ! j = h ! j)
      \<and> (\<forall>c \<in> set (indices cs).
            \<exists>ca cb x y. broadcast_index c cs (shape a) (shape a) = Inr ca
              \<and> in_bounds ca (shape a)
              \<and> broadcast_index c cs (shape b) (shape b) = Inr cb
              \<and> in_bounds cb (shape b)
              \<and> py_get (h ! storage a) (index_to_position ca (strides a)) = Inr x
              \<and> py_get (h ! storage b) (index_to_position cb (strides b)) = Inr y
              \<and> py_get (h' ! length h) (index_to_position c (strides_from_shape cs)) = Inr (fn x y))"
proof -
  let ?st = "strides_from_shape cs"
  let ?o = "length h"
  let ?h1 = "h @ [replicate (size_of cs) (0::'a)]"
  have h1o: "?h1 ! ?o = replicate (size_of cs) 0" by simp
  have h1a: "?h1 ! storage a = h ! storage a" using assms(3) by (simp add: nth_append)
  have h1b: "?h1 ! storage b = h ! storage b" using assms(4) by (simp add: nth_append)
  have p2: "?o < length ?h1" "storage a < length ?h1" "storage b < length ?h1"
    "?o \<noteq> storage a" "?o \<noteq> storage b"
    using assms(3,4) by simp_all
  have p3: "view_ok (?h1 ! ?o) cs ?st" unfolding h1o by (rule contiguous_view_ok) simp
  have p4: "view_ok (?h1 ! storage a) (shape a) (strides a)" unfolding h1a by (rule assms(5))
  have p5: "view_ok (?h1 ! storage b) (shape b) (strides b)" unfolding h1b by (rule assms(6))
  from tensor_zip_effect [OF assms(1,2) p2 p3 p4 p5, of fn] obtain h'
    where run: "tensor_zip fn ?o cs ?st (storage a) (shape a) (strides a)
                  (storage b) (shape b) (strides b) ?h1 = (None, h')"
      and vals: "\<forall>c \<in> set (indices cs).
          (\<forall>c' \<in> set (indices cs). row_major_less c c' \<longrightarrow>
              py_slot (length (?h1 ! ?o)) (index_to_position c' ?st)
                \<noteq> py_slot (length (?h1 ! ?o)) (index_to_position c ?st)) \<longrightarrow>
          (\<exists>ca cb x y. broadcast_index c cs (shape a) (shape a) = Inr ca
              \<and> in_bounds ca (shape a)
              \<and> broadcast_index c cs (shape b) (shape b) = Inr cb
              \<and> in_bounds cb (shape b)
              \<and> py_get (?h1 ! storage a) (index_to_position ca (strides a)) = Inr x
              \<and> py_get (?h1 ! storage b) (index_to_position cb (strides b)) = Inr y
              \<and> py_get (h' ! ?o) (index_to_position c ?st) = Inr (fn x y))"
      and frame: "writes_only ?o (positions cs ?st) ?h1 h'"
    by blast
  have len: "length h' = Suc (length h)" using writes_only_D(1) [OF frame] by simp
  have old: "\<forall>j < length h. h' ! j = h ! j"
  proof (intro allI impI)
    fix j assume j: "j < length h"
    then have "h' ! j = ?h1 ! j" using writes_only_D(2) [OF frame, of j] by simp
    then show "h' ! j = h ! j" using j by (simp add: nth_append)
  qed
  have each: "\<exists>ca cb x y. broadcast_index c cs (shape a) (shape a) = Inr ca
              \<and> in_bounds ca (shape a)
              \<and> broadcast_index c cs (shape b) (shape b) = Inr cb
              \<and> in_bounds cb (shape b)
              \<and> py_get (h ! storage a) (index_to_position ca (strides a)) = Inr x
              \<and> py_get (h ! storage b) (index_to_position cb (strides b)) = Inr y
              \<and> py_get (h' ! ?o) (index_to_position c ?st) = Inr (fn x y)"
    if c: "c \<in> set (indices cs)" for c
  proof -
    have nolater: "\<forall>c' \<in> set (indices cs). row_major_less c c' \<longrightarrow>
              py_slot (length (?h1 ! ?o)) (index_to_position c' ?st)
                \<noteq> py_slot (length (?h1 ! ?o)) (index_to_position c ?st)"
    proof (intro ballI impI)
      fix c' assume c': "c' \<in> set (indices cs)" and "row_major_less c c'"
      then have "c \<noteq> c'" using row_major_less_irrefl by blast
      from contiguous_slots_distinct [OF c c' this]
      show "py_slot (length (?h1 ! ?o)) (index_to_position c' ?st)
                \<noteq> py_slot (length (?h1 ! ?o)) (index_to_position c ?st)"
        unfolding h1o by simp
    qed
    with vals c show ?thesis unfolding h1a h1b by blast
  qed
  from run len old each show ?thesis by blast
qed

text \<open>
  Claim C2. Let \<open>a\<close> and \<open>b\<close> be tensors whose buffers fit their shapes and strides. If
  their shapes are equal, \<open>zip(fn)(a, b)\<close> returns a tensor of that shape on a fresh
  buffer whose value at every coordinate \<open>c\<close> is \<open>fn(a[c], b[c])\<close> (their sum when \<open>fn\<close>
  is addition). If the shapes differ and broadcast to \<open>cs\<close>, the result has the shape
  \<open>cs\<close> and its value at every coordinate \<open>c\<close> of \<open>cs\<close> is \<open>fn\<close> of the values of \<open>a\<close>
  and \<open>b\<close> at the coordinates that \<open>broadcast_index\<close> gives for \<open>c\<close> in the shape of each.
\<close>

theorem zip_elementwise:
  fixes h :: "'a::zero heap"
  assumes "storage a < length h" "storage b < length h"
    and "view_ok (h ! storage a) (shape a) (strides a)"
    and "view_ok (h ! storage b) (shape b) (strides b)"
  shows "(shape a = shape b \<longrightarrow>
          (\<exists>out h'. tensor_ops_zip fn a b h = (Inr out, h')
             \<and> shape out = shape a \<and> storage out = length h
             \<and> (\<forall>c \<in> set (indices (shape a)).
                  \<exists>x y. py_get (h ! storage a) (index_to_position c (strides a)) = Inr x
                     \<and> py_get (h ! storage b) (index_to_position c (strides b)) = Inr y
                     \<and> py_get (h' ! storage out) (index_to_position c (strides out))
                         = Inr (fn x y))))
       \<and> (\<forall>cs. shape a \<noteq> shape b \<and> shape_broadcast (shape a) (shape b) = Inr cs \<longrightarrow>
          (\<exists>out h'. tensor_ops_zip fn a b h = (Inr out, h')
             \<and> shape out = cs \<and> storage out = length h
             \<and> (\<forall>c \<in> set (indices cs).
                  \<exists>ca cb x y. broadcast_index c cs (shape a) (shape a) = Inr ca
                     \<and> in_bounds ca (shape a)
                     \<and> broadcast_index c cs (shape b) (shape b) = Inr cb
                     \<and> in_bounds cb (shape b)
                     \<and> py_get (h ! storage a) (index_to_position ca (strides a)) = Inr x
                     \<and> py_get (h ! storage b) (index_to_position cb (strides b)) = Inr y
                     \<and> py_get (h' ! storage out) (index_to_position c (strides out))
                         = Inr (fn x y))))"
proof (intro conjI impI allI)
  assume eq: "shape a = shape b"
  let ?cs = "shape a"
  let ?out = "\<lparr>storage = length h, shape = ?cs, strides = strides_from_shape ?cs\<rparr>"
  have ba: "broadcasts_into (shape a) ?cs" by (simp add: broadcasts_into_def shape_broadcast_same)
  have bb: "broadcasts_into (shape b) ?cs"
    using eq by (simp add: broadcasts_into_def shape_broadcast_same)
  from zip_on_fresh [OF ba bb assms, of fn] obtain h'
    where run: "tensor_zip fn (length h) ?cs (strides_from_shape ?cs)
                 (storage a) (shape a) (strides a) (storage b) (shape b) (strides b)
                 (h @ [replicate (size_of ?cs) 0]) = (None, h')"
      and each: "\<forall>c \<in> set (indices ?cs).
            \<exists>ca cb x y. broadcast_index c ?cs (shape a) (shape a) = Inr ca
              \<and> in_bounds ca (shape a)
              \<and> broadcast_index c ?cs (shape b) (shape b) = Inr cb
              \<and> in_bounds cb (shape b)
              \<and> py_get (h ! storage a) (index_to_position ca (strides a)) = Inr x
              \<and> py_get (h ! storage b) (index_to_position cb (strides b)) = Inr y
              \<and> py_get (h' ! length h) (index_to_position c (strides_from_shape ?cs)) = Inr (fn x y)"
    by blast
  have ite: "(if shape a \<noteq> shape b then shape_broadcast (shape a) (shape b)
              else Inr (shape a)) = Inr (shape a)"
    using eq by simp
  have res: "tensor_ops_zip fn a b h = (Inr ?out, h')"
    unfolding tensor_ops_zip_def ite by (simp add: zeros_eq run)
  have vals: "\<exists>x y. py_get (h ! storage a) (index_to_position c (strides a)) = Inr x
                     \<and> py_get (h ! storage b) (index_to_position c (strides b)) = Inr y
                     \<and> py_get (h' ! storage ?out) (index_to_position c (strides ?out)) = Inr (fn x y)"
    if c: "c \<in> set (indices (shape a))" for c
  proof -
    from each c obtain ca cb x y where ca: "broadcast_index c ?cs (shape a) (shape a) = Inr ca"
      and cb: "broadcast_index c ?cs (shape b) (shape b) = Inr cb"
      and g: "py_get (h ! storage a) (index_to_position ca (strides a)) = Inr x"
         "py_get (h ! storage b) (index_to_position cb (strides b)) = Inr y"
         "py_get (h' ! length h) (index_to_position c (strides_from_shape ?cs)) = Inr (fn x y)"
      by blast
    have inb: "in_bounds c (shape a)" using c by (simp add: indices_set)
    have "ca = c" using ca broadcast_index_same [OF inb] by simp
    moreover have "cb = c" using cb broadcast_index_same [OF inb] eq by simp
    ultimately show ?thesis using g by simp
  qed
  show "\<exists>out h'. tensor_ops_zip fn a b h = (Inr out, h')
             \<and> shape out = shape a \<and> storage out = length h
             \<and> (\<forall>c \<in> set (indices (shape a)).
                  \<exists>x y. py_get (h ! storage a) (index_to_position c (strides a)) = Inr x
                     \<and> py_get (h ! storage b) (index_to_position c (strides b)) = Inr y
                     \<and> py_get (h' ! storage out) (index_to_position c (strides out))
                         = Inr (fn x y))"
    using res vals by (intro exI [of _ ?out] exI [of _ h']) simp
next
  fix cs
  assume ne: "shape a \<noteq> shape b \<and> shape_broadcast (shape a) (shape b) = Inr cs"
  let ?out = "\<lparr>storage = length h, shape = cs, strides = strides_from_shape cs\<rparr>"
  from ne have sb: "shape_broadcast (shape a) (shape b) = Inr cs" by blast
  have ba: "broadcasts_into (shape a) cs" and bb: "broadcasts_into (shape b) cs"
    using shape_broadcast_into [OF sb] by blast+
  from zip_on_fresh [OF ba bb assms, of fn] obtain h'
    where run: "tensor_zip fn (length h) cs (strides_from_shape cs)
                 (storage a) (shape a) (strides a) (storage b) (shape b) (strides b)
                 (h @ [replicate (size_of cs) 0]) = (None, h')"
      and each: "\<forall>c \<in> set (indices cs).
            \<exists>ca cb x y. broadcast_index c cs (shape a) (shape a) = Inr ca
              \<and> in_bounds ca (shape a)
              \<and> broadcast_index c cs (shape b) (shape b) = Inr cb
              \<and> in_bounds cb (shape b)
              \<and> py_get (h ! storage a) (index_to_position ca (strides a)) = Inr x
              \<and> py_get (h ! storage b) (index_to_position cb (strides b)) = Inr y
              \<and> py_get (h' ! length h) (index_to_position c (strides_from_shape cs)) = Inr (fn x y)"
    by blast
  have res: "tensor_ops_zip fn a b h = (Inr ?out, h')"
    using ne by (simp add: tensor_ops_zip_def zeros_eq run)
  show "\<exists>out h'. tensor_ops_zip fn a b h = (Inr out, h')
             \<and> shape out = cs \<and> storage out = length h
             \<and> (\<forall>c \<in> set (indices cs).
                  \<exists>ca cb x y. broadcast_index c cs (shape a) (shape a) = Inr ca
                     \<and> in_bounds ca (shape a)
                     \<and> broadcast_index c cs (shape b) (shape b) = Inr cb
                     \<and> in_bounds cb (shape b)
                     \<and> py_get (h ! storage a) (index_to_position ca (strides a)) = Inr x
                     \<and> py_get (h ! storage b) (index_to_position cb (strides b)) = Inr y
                     \<and> py_get (h' ! storage out) (index_to_position c (strides out))
                         = Inr (fn x y))"
    using res each by (intro exI [of _ ?out] exI [of _ h']) simp
qed

theorem zip_elementwise_witness:
  "view_ok [1, 2, 3, 4, 5, 6 :: int] [2, 3] [3, 1]
   \<and> view_ok [10, 20 :: int] [2, 1] [1, 1]
   \<and> shape_broadcast [2, 3] [2, 1] = Inr [2, 3]
   \<and> tensor_ops_zip add \<lparr>storage = 0, shape = [2, 3], strides = [3, 1]\<rparr>
         \<lparr>storage = 1, shape = [2, 1], strides = [1, 1]\<rparr> [[1, 2, 3, 4, 5, 6], [10, 20 :: int]]
       = (Inr \<lparr>storage = 2, shape = [2, 3], strides = [3, 1]\<rparr>,
          [[1, 2, 3, 4, 5, 6], [10, 20], [11, 12, 13, 24, 25, 26]])
   \<and> tensor_ops_zip add \<lparr>storage = 0, shape = [2, 3], strides = [3, 1]\<rparr>
         \<lparr>storage = 0, shape = [2, 3], strides = [3, 1]\<rparr> [[1, 2, 3, 4, 5, 6], [10, 20 :: int]]
       = (Inr \<lparr>storage = 2, shape = [2, 3], strides = [3, 1]\<rparr>,
          [[1, 2, 3, 4, 5, 6], [10, 20], [2, 4, 6, 8, 10, 12]])
   \<and> (\<exists>out h'. tensor_ops_zip add \<lparr>storage = 0, shape = [2, 3], strides = [3, 1]\<rparr>
         \<lparr>storage = 1, shape = [2, 1], strides = [1, 1]\<rparr> [[1, 2, 3, 4, 5, 6], [10, 20 :: int]]
           = (Inr out, h') \<and> shape out = [2, 3] \<and> storage out = 2)"
proof -
  let ?a = "\<lparr>storage = 0, shape = [2, 3], strides = [3, 1]\<rparr>"
  let ?b = "\<lparr>storage = 1, shape = [2, 1], strides = [1, 1]\<rparr>"
  let ?h = "[[1, 2, 3, 4, 5, 6], [10, 20 :: int]]"
  have l: "storage ?a < length ?h" "storage ?b < length ?h" by simp_all
  have va: "view_ok (?h ! storage ?a) (shape ?a) (strides ?a)" by code_simp
  have vb: "view_ok (?h ! storage ?b) (shape ?b) (strides ?b)" by code_simp
  have sb: "shape_broadcast [2, 3] [2, 1] = Inr [2, 3]" by code_simp
  have r1: "tensor_ops_zip add ?a ?b ?h
       = (Inr \<lparr>storage = 2, shape = [2, 3], strides = [3, 1]\<rparr>,
          [[1, 2, 3, 4, 5, 6], [10, 20], [11, 12, 13, 24, 25, 26]])" by code_simp
  have r2: "tensor_ops_zip add ?a ?a ?h
       = (Inr \<lparr>storage = 2, shape = [2, 3], strides = [3, 1]\<rparr>,
          [[1, 2, 3, 4, 5, 6], [10, 20], [2, 4, 6, 8, 10, 12]])" by code_simp
  show ?thesis
    using va vb sb r1 r2 zip_elementwise [OF l va vb, of add] by simp
qed



lemma fold_from_Some: "fold_from fn (Some l) vs = Some (foldl fn l vs)"
  by (induction vs arbitrary: l) simp_all

lemma fold_from_None: "fold_from fn None (v # vs) = Some (foldl fn v vs)"
  by (simp add: fold_from_Some)

























text \<open>
  Claim C4 says that on a dimension of size 0 the result holds the pre-filled \<open>start\<close>
  at every output position. On the shape \<open>(0, 2)\<close>, reduced along dimension 0 with
  \<open>start = 7\<close>, the inner loop of \<open>_reduce\<close> does not run, \<open>last\<close> is still \<open>None\<close>, and
  \<open>None\<close> is assigned to both output cells: they hold what the buffer makes of \<open>None\<close>
  (here \<open>- 1\<close>), not 7.
\<close>

theorem reduce_empty_dim_stores_none:
  "tensor_ops_reduce add (- 1) 7 \<lparr>storage = 0, shape = [0, 2], strides = [2, 1]\<rparr> 0
      [[] :: int list]
   = (Inr \<lparr>storage = 1, shape = [1, 2], strides = [2, 1]\<rparr>, [[], [- 1, - 1]])"
  by code_simp












end
